theory Spec2Isabelle
  imports Complex_Main
begin

section \<open>Numbers and elementary functions\<close>

text \<open>
  The library computes with JavaScript numbers. They are modelled by the real numbers,
  and \<open>Math.sqrt\<close>, \<open>Math.pow(_, 2)\<close>, \<open>Math.cos\<close>, \<open>Math.sin\<close> and \<open>Math.atan2\<close> by the
  real functions they approximate. The one operation of \<open>lineTo\<close> that leaves the finite
  numbers on finite input is the remainder \<open>%\<close> with a zero divisor, which yields \<open>NaN\<close>;
  it is modelled by \<open>None\<close>.
\<close>

definition js_trunc :: "real \<Rightarrow> int" where
  "js_trunc r = (if 0 \<le> r then \<lfloor>r\<rfloor> else \<lceil>r\<rceil>)"

text \<open>\<open>a % b\<close>: the remainder of the division truncated towards zero; it has the sign of \<open>a\<close>.\<close>

definition js_rem :: "real \<Rightarrow> real \<Rightarrow> real option" where
  "js_rem a b = (if b = 0 then None else Some (a - b * of_int (js_trunc (a / b))))"

definition atan2 :: "real \<Rightarrow> real \<Rightarrow> real" where
  "atan2 y x =
     (if 0 < x then arctan (y / x)
      else if x < 0 then (if 0 \<le> y then arctan (y / x) + pi else arctan (y / x) - pi)
      else if 0 < y then pi / 2
      else if y < 0 then - (pi / 2)
      else 0)"

section \<open>Data model\<close>

record Point =
  px :: real
  py :: real

datatype matrix_op = Rotate real | Scale real real | Translate real real

text \<open>
  The argument of \<open>graphics.stroke\<close>: the style object built by \<open>setStrokeStyle\<close> in
  vector mode (width, color, alpha, cap, join, alignment), the one it builds in texture
  mode once the texture is there (width, color, alpha, alignment; the texture itself is
  outside the model), or the surface's own stroke style with the matrix that
  \<open>adjustStrokeStyle\<close> has just composed, as the list of operations applied to a fresh
  \<open>Matrix\<close>.
\<close>

datatype stroke_arg =
    Style real nat real "string option" "string option" real
  | TextureStyle real nat real real
  | WithMatrix "matrix_op list"

text \<open>
  The drawing surface (\<open>Graphics\<close> of pixi.js) is an external collaborator. It is modelled
  by the chronological list of the calls the tracer has issued on it.
\<close>

datatype call = MoveTo real real | LineTo real real | ClosePath | Stroke stroke_arg

text \<open>\<open>Required<DashLineOptions>\<close>: the options after merging with the defaults.\<close>

record DashLineOptions =
  o_dash :: "real list"
  o_width :: real
  o_color :: nat
  o_alpha :: real
  o_scale :: real
  o_useTexture :: bool
  o_cap :: "string option"
  o_join :: "string option"
  o_alignment :: real
  o_offset :: real

definition dashLineOptionsDefault :: DashLineOptions where
  "dashLineOptionsDefault =
     \<lparr> o_dash = [10, 5], o_width = 1, o_color = 16777215, o_alpha = 1, o_scale = 1,
       o_useTexture = False, o_cap = None, o_join = None, o_alignment = 1 / 2,
       o_offset = 0 \<rparr>"

record DashLine =
  graphics :: "call list"
  lineLength :: real
  cursor :: Point
  scale :: real
  start :: Point
  dashSize :: real
  dash :: "real list"
  useTexture :: bool
  options :: DashLineOptions

datatype error = TypeError

section \<open>Construction\<close>

text \<open>
  \<open>this.dash.reduce((a, b) => a + b)\<close>: without an initial value, \<open>reduce\<close> starts from
  the first element and throws a \<open>TypeError\<close> on an empty array.
\<close>

definition reduce_add :: "real list \<Rightarrow> error + real" where
  "reduce_add xs = (case xs of [] \<Rightarrow> Inl TypeError | a # as \<Rightarrow> Inr (foldl (+) a as))"

text \<open>
  \<open>setStrokeStyle\<close> is asynchronous. In vector mode it has no \<open>await\<close> on its path: the
  style is applied to the surface and the scale of the options is copied at once, within
  the call. In texture mode it first awaits the texture, so the call returns with the
  tracer unchanged: \<open>scale\<close> keeps its value (the initial 1 after construction) and
  nothing is stroked.
\<close>

definition setStrokeStyle :: "DashLine \<Rightarrow> DashLine" where
  "setStrokeStyle t =
     (let opts = options t
      in if useTexture t then t
         else t\<lparr>graphics := graphics t @
                 [Stroke (Style (o_width opts * o_scale opts) (o_color opts) (o_alpha opts)
                            (o_cap opts) (o_join opts) (o_alignment opts))],
               scale := o_scale opts\<rparr>)"

text \<open>
  The rest of \<open>setStrokeStyle\<close> in texture mode, run when the awaited texture arrives:
  \<open>texture\<close> tells whether there is one (\<open>getTexture\<close> yields \<open>undefined\<close> without a
  canvas context). With a texture the style is applied to the surface; in both cases the
  scale of the options is copied. The private field \<open>activeTexture\<close>, which nothing reads,
  is not modelled.
\<close>

definition setStrokeStyleResumed :: "DashLine \<Rightarrow> bool \<Rightarrow> DashLine" where
  "setStrokeStyleResumed t texture =
     (let opts = options t;
          g = (if texture
               then graphics t @
                 [Stroke (TextureStyle (o_width opts * o_scale opts) (o_color opts)
                            (o_alpha opts) (o_alignment opts))]
               else graphics t)
      in t\<lparr>graphics := g, scale := o_scale opts\<rparr>)"

definition constructor :: "call list \<Rightarrow> DashLineOptions \<Rightarrow> error + DashLine" where
  "constructor g mergedOpts =
     (case reduce_add (o_dash mergedOpts) of
        Inl e \<Rightarrow> Inl e
      | Inr dsize \<Rightarrow>
          Inr (setStrokeStyle
                 \<lparr> graphics = g, lineLength = 0, cursor = \<lparr>px = 0, py = 0\<rparr>, scale = 1,
                   start = \<lparr>px = 0, py = 0\<rparr>, dashSize = dsize, dash = o_dash mergedOpts,
                   useTexture = o_useTexture mergedOpts, options = mergedOpts \<rparr>))"

section \<open>The tracer\<close>

definition distance :: "real \<Rightarrow> real \<Rightarrow> real \<Rightarrow> real \<Rightarrow> real" where
  "distance x1 y1 x2 y2 = sqrt ((x2 - x1)\<^sup>2 + (y2 - y1)\<^sup>2)"

definition moveTo :: "DashLine \<Rightarrow> real \<Rightarrow> real \<Rightarrow> DashLine" where
  "moveTo t x y =
     t\<lparr> lineLength := 0, cursor := \<lparr>px = x, py = y\<rparr>, start := \<lparr>px = x, py = y\<rparr>,
        graphics := graphics t @ [MoveTo x y] \<rparr>"

definition adjustStrokeStyle :: "DashLine \<Rightarrow> real \<Rightarrow> call list" where
  "adjustStrokeStyle t angle =
     (let textureStart = - (lineLength t + o_offset (options t))
      in graphics t @
         [Stroke (WithMatrix
            ((if angle \<noteq> 0 then [Rotate angle] else []) @
             (if scale t \<noteq> 1 then [Scale (scale t) (scale t)] else []) @
             [Translate (px (cursor t) + textureStart * cos angle)
                        (py (cursor t) + textureStart * sin angle)]))])"

text \<open>
  The \<open>for\<close> loop of \<open>lineTo\<close> that finds the dash containing \<open>place\<close>: the remaining
  entries of the pattern, the index \<open>i\<close> of the first of them and the running sum
  \<open>dashX\<close>. When no entry matches, \<open>dashIndex\<close> and \<open>dashStart\<close> keep their initial 0.
\<close>

fun findDash :: "real list \<Rightarrow> real \<Rightarrow> real \<Rightarrow> nat \<Rightarrow> real \<Rightarrow> nat \<times> real" where
  "findDash [] sc place i dashX = (0, 0)"
| "findDash (d # ds) sc place i dashX =
     (let dashSize = d * sc
      in if place < dashX + dashSize then (i, place - dashX)
         else findDash ds sc place (Suc i) (dashX + dashSize))"

text \<open>
  The phase lookup at the head of the vector branch: \<open>place\<close>, then the loop. Every
  comparison with \<open>NaN\<close> is false, so a \<open>NaN\<close> place leaves \<open>(0, 0)\<close>.
\<close>

definition dashPlace :: "DashLine \<Rightarrow> real option" where
  "dashPlace t = js_rem (lineLength t + o_offset (options t)) (dashSize t * scale t)"

definition locate :: "DashLine \<Rightarrow> nat \<times> real" where
  "locate t =
     (case dashPlace t of
        None \<Rightarrow> (0, 0)
      | Some place \<Rightarrow> findDash (dash t) (scale t) place 0 0)"

text \<open>
  The \<open>while (remaining > 0)\<close> loop of \<open>lineTo\<close>, with the calls issued on the surface
  accumulated in \<open>g\<close>. The loop need not terminate (a pattern entry 0 consumes nothing),
  so the result is optional: \<open>None\<close> stands for a loop that never returns. The pattern of
  a constructed tracer is not empty, and \<open>dashIndex\<close> starts from the lookup and wraps at
  the length of the pattern, so \<open>dash[dashIndex]\<close> and \<open>dash[dash.length - 1]\<close> are read
  within range.
\<close>

partial_function (option) strideLoop ::
  "DashLine \<Rightarrow> bool \<Rightarrow> real \<Rightarrow> real \<Rightarrow> real \<Rightarrow> real \<Rightarrow> nat \<Rightarrow> real \<Rightarrow> real \<Rightarrow> call list
     \<Rightarrow> call list option"
where
  "strideLoop t isClosed c s x0 y0 dashIndex dashStart remaining g =
     (if remaining > 0 then
        (let dashSize = dash t ! dashIndex * scale t - dashStart;
             dist = (if remaining > dashSize then dashSize else remaining)
         in if isClosed \<and>
               distance (x0 + c * dist) (y0 + s * dist) (px (start t)) (py (start t)) \<le> dist
            then
              (if even dashIndex then
                 (let lastDash = distance x0 y0 (px (start t)) (py (start t))
                                   - last (dash t) * scale t
                  in Some (g @ [LineTo (x0 + c * lastDash) (y0 + s * lastDash)]))
               else Some g)
            else
              strideLoop t isClosed c s (x0 + c * dist) (y0 + s * dist)
                (if Suc dashIndex = length (dash t) then 0 else Suc dashIndex) 0
                (remaining - dist)
                (g @ [if odd dashIndex then MoveTo (x0 + c * dist) (y0 + s * dist)
                      else LineTo (x0 + c * dist) (y0 + s * dist)]))
      else Some g)"

text \<open>
  \<open>lineTo\<close>. The guard \<open>this.lineLength === undefined\<close> never holds, the field being
  initialised to 0 and only ever assigned numbers. \<open>None\<close>: the call does not return.
\<close>

definition lineTo :: "DashLine \<Rightarrow> real \<Rightarrow> real \<Rightarrow> bool \<Rightarrow> DashLine option" where
  "lineTo t x y closePath =
     (let len = distance (px (cursor t)) (py (cursor t)) x y;
          angle = atan2 (y - py (cursor t)) (x - px (cursor t));
          isClosed = (closePath \<and> x = px (start t) \<and> y = py (start t))
      in if useTexture t then
           (let g1 = adjustStrokeStyle
                       (t\<lparr>graphics := graphics t @ [MoveTo (px (cursor t)) (py (cursor t))]\<rparr>)
                       angle;
                g2 = (if isClosed \<and> even (length (dash t)) then
                        (let gap = min (last (dash t)) len
                         in g1 @ [LineTo (x - cos angle * gap) (y - sin angle * gap),
                                  ClosePath])
                      else g1 @ [LineTo x y])
            in Some (t\<lparr> graphics := g2, lineLength := lineLength t + len,
                        cursor := \<lparr>px = x, py = y\<rparr> \<rparr>))
         else
           (case strideLoop t isClosed (cos angle) (sin angle) (px (cursor t)) (py (cursor t))
                   (fst (locate t)) (snd (locate t)) len (graphics t) of
              None \<Rightarrow> None
            | Some g \<Rightarrow>
                Some (t\<lparr> graphics := g, lineLength := lineLength t + len,
                         cursor := \<lparr>px = x, py = y\<rparr> \<rparr>)))"

definition closePath :: "DashLine \<Rightarrow> DashLine option" where
  "closePath t = lineTo t (px (start t)) (py (start t)) True"

section \<open>Shape composers\<close>

text \<open>
  The affine transform (\<open>Matrix\<close> of pixi.js) is an external collaborator; the optional
  \<open>matrix\<close> argument is taken as the function on points that \<open>matrix.apply\<close> computes.
\<close>

type_synonym Matrix = "Point \<Rightarrow> Point"

text \<open>
  The \<open>for\<close> loop of \<open>circle\<close>: the successive values of \<open>next\<close>, the targets of the
  \<open>lineTo\<close> calls, from the loop counter \<open>i\<close> and the running \<open>angle\<close>. The number of
  points is a count.
\<close>

function circleTargets ::
  "real \<Rightarrow> real \<Rightarrow> real \<Rightarrow> nat \<Rightarrow> Point \<Rightarrow> real \<Rightarrow> nat \<Rightarrow> real \<Rightarrow> Point list"
where
  "circleTargets x y radius points first interval i angle =
     (if i < points + 1 then
        (if i = points then first
         else \<lparr>px = x + cos angle * radius, py = y + sin angle * radius\<rparr>)
        # circleTargets x y radius points first interval (Suc i) (angle + interval)
      else [])"
  by pat_completeness auto
termination
  by (relation "measure (\<lambda>(x, y, radius, points, first, interval, i, angle). points + 1 - i)")
    auto

text \<open>A run of plain \<open>lineTo\<close> calls, one per target.\<close>

fun lineTos :: "DashLine \<Rightarrow> Point list \<Rightarrow> DashLine option" where
  "lineTos t [] = Some t"
| "lineTos t (p # ps) =
     (case lineTo t (px p) (py p) False of None \<Rightarrow> None | Some t' \<Rightarrow> lineTos t' ps)"

definition circle ::
  "DashLine \<Rightarrow> real \<Rightarrow> real \<Rightarrow> real \<Rightarrow> nat \<Rightarrow> Matrix option \<Rightarrow> DashLine option"
where
  "circle t x y radius points matrix =
     (let interval = (pi * 2) / real points;
          angle = 0;
          sampled = \<lparr>px = x + cos angle * radius, py = y + sin angle * radius\<rparr>;
          first = (case matrix of Some m \<Rightarrow> m sampled | None \<Rightarrow> sampled)
      in lineTos (moveTo t (px first) (py first))
           (circleTargets x y radius points first interval 1 (angle + interval)))"

section \<open>Curve flattener\<close>

text \<open>
  Modelled from the spec: the curve flattener (\<open>flattenCubic\<close>, \<open>flattenQuadratic\<close>). Its
  implementation is not among the sources; only the declarations of \<open>bezierCurveTo\<close>,
  \<open>quadraticCurveTo\<close> and their private subdivision helpers exist, in the type
  declarations of the distribution. The specification describes a recursive subdivision:
  a flatness measure (the largest perpendicular deviation of the control points from the
  chord) is compared with the tolerance; below it the endpoint is emitted, otherwise the
  curve is split by de Casteljau at the midpoint parameter and both halves are flattened;
  a depth cap stops the recursion and accepts the current flatness. The specification
  names no value for the cap, so it is an argument.
\<close>

text \<open>
  Modelled from the spec: the midpoint used by the split, and the flatness measure, the
  perpendicular distance of a control point \<open>p\<close> from the chord \<open>a b\<close> (its distance from
  \<open>a\<close> when the chord has no length).
\<close>

definition midpoint :: "Point \<Rightarrow> Point \<Rightarrow> Point" where
  "midpoint a b = \<lparr>px = (px a + px b) / 2, py = (py a + py b) / 2\<rparr>"

definition deviation :: "Point \<Rightarrow> Point \<Rightarrow> Point \<Rightarrow> real" where
  "deviation a b p =
     (if distance (px a) (py a) (px b) (py b) = 0 then distance (px a) (py a) (px p) (py p)
      else \<bar>(px b - px a) * (py p - py a) - (py b - py a) * (px p - px a)\<bar>
             / distance (px a) (py a) (px b) (py b))"

text \<open>
  Modelled from the spec: \<open>flattenCubic\<close> and \<open>flattenQuadratic\<close>, with the remaining
  depth as first argument. They return the points after \<open>p0\<close>, up to and including the
  endpoint.
\<close>

fun flattenCubic :: "nat \<Rightarrow> Point \<Rightarrow> Point \<Rightarrow> Point \<Rightarrow> Point \<Rightarrow> real \<Rightarrow> Point list" where
  "flattenCubic 0 p0 p1 p2 p3 tolerance = [p3]"
| "flattenCubic (Suc depth) p0 p1 p2 p3 tolerance =
     (if max (deviation p0 p3 p1) (deviation p0 p3 p2) < tolerance then [p3]
      else
        (let p01 = midpoint p0 p1; p12 = midpoint p1 p2; p23 = midpoint p2 p3;
             p012 = midpoint p01 p12; p123 = midpoint p12 p23;
             p0123 = midpoint p012 p123
         in flattenCubic depth p0 p01 p012 p0123 tolerance
            @ flattenCubic depth p0123 p123 p23 p3 tolerance))"

fun flattenQuadratic :: "nat \<Rightarrow> Point \<Rightarrow> Point \<Rightarrow> Point \<Rightarrow> real \<Rightarrow> Point list" where
  "flattenQuadratic 0 p0 p1 p2 tolerance = [p2]"
| "flattenQuadratic (Suc depth) p0 p1 p2 tolerance =
     (if deviation p0 p2 p1 < tolerance then [p2]
      else
        (let p01 = midpoint p0 p1; p12 = midpoint p1 p2; p012 = midpoint p01 p12
         in flattenQuadratic depth p0 p01 p012 tolerance
            @ flattenQuadratic depth p012 p12 p2 tolerance))"

section \<open>Notions used in the properties\<close>

text \<open>
  A tracer as the constructor leaves it for a pattern of positive entries and a positive
  scale: the pattern is not empty, \<open>dashSize\<close> is the sum of the pattern, and the scale
  in use is positive.
\<close>

definition wellConfigured :: "DashLine \<Rightarrow> bool" where
  "wellConfigured t \<longleftrightarrow>
     dash t \<noteq> [] \<and> (\<forall>d \<in> set (dash t). 0 < d) \<and> 0 < scale t \<and>
     dashSize t = sum_list (dash t)"

text \<open>
  The start of dash \<open>i\<close> within one period, as the lookup loop accumulates it in \<open>dashX\<close>.
\<close>

definition dashStartAt :: "DashLine \<Rightarrow> nat \<Rightarrow> real" where
  "dashStartAt t i = sum_list (map (\<lambda>d. d * scale t) (take i (dash t)))"

text \<open>
  The closing-loop seam rule as the specification words it, read on the strides of a plain
  walk (the calls a \<open>lineTo\<close> without the flag issues, from pen position \<open>p\<close>): the walk
  ends at the first stride whose end is no farther from the start \<open>st\<close> of the subpath
  than the stride is long; a draw stride is replaced by a draw to the seam point \<open>sp\<close>,
  a gap stride by nothing.
\<close>

fun seamRule :: "Point \<Rightarrow> Point \<Rightarrow> Point \<Rightarrow> call list \<Rightarrow> call list" where
  "seamRule st sp p [] = []"
| "seamRule st sp p (LineTo x y # cs) =
     (if distance x y (px st) (py st) \<le> distance (px p) (py p) x y
      then [LineTo (px sp) (py sp)]
      else LineTo x y # seamRule st sp \<lparr>px = x, py = y\<rparr> cs)"
| "seamRule st sp p (MoveTo x y # cs) =
     (if distance x y (px st) (py st) \<le> distance (px p) (py p) x y
      then []
      else MoveTo x y # seamRule st sp \<lparr>px = x, py = y\<rparr> cs)"
| "seamRule st sp p (c # cs) = c # seamRule st sp p cs"

text \<open>
  Reading a run of surface calls as a pen trace: from pen position \<open>p\<close>, each \<open>lineTo\<close>
  is a drawn stretch and each \<open>moveTo\<close> a lifted one, of the length between its end points.
  \<open>penEnd\<close> is the pen position after the calls, and \<open>drawnAt ms d\<close> tells whether the
  pen is down at the distance \<open>d\<close> along the trace \<open>ms\<close>.
\<close>

fun penMarks :: "Point \<Rightarrow> call list \<Rightarrow> (bool \<times> real) list" where
  "penMarks p [] = []"
| "penMarks p (MoveTo x y # cs) =
     (False, distance (px p) (py p) x y) # penMarks \<lparr>px = x, py = y\<rparr> cs"
| "penMarks p (LineTo x y # cs) =
     (True, distance (px p) (py p) x y) # penMarks \<lparr>px = x, py = y\<rparr> cs"
| "penMarks p (c # cs) = penMarks p cs"

fun penEnd :: "Point \<Rightarrow> call list \<Rightarrow> Point" where
  "penEnd p [] = p"
| "penEnd p (MoveTo x y # cs) = penEnd \<lparr>px = x, py = y\<rparr> cs"
| "penEnd p (LineTo x y # cs) = penEnd \<lparr>px = x, py = y\<rparr> cs"
| "penEnd p (c # cs) = penEnd p cs"

fun drawnAt :: "(bool \<times> real) list \<Rightarrow> real \<Rightarrow> bool" where
  "drawnAt [] d = False"
| "drawnAt ((b, l) # ms) d = (if d < l then b else drawnAt ms (d - l))"

text \<open>
  \<open>phaseDraw t a\<close>: the phase lookup at accumulated length \<open>a\<close> answers a draw dash (an
  even index). \<open>inPhase t a i r\<close>: at accumulated length \<open>a\<close> the walk is \<open>r\<close> into dash
  \<open>i\<close>, counting whole periods; a negative \<open>r\<close> arises only in dash 0 of the first period,
  from a negative phase. \<open>tracesPhase t a p q R os\<close>: the calls \<open>os\<close> take the pen from \<open>p\<close>
  to \<open>q\<close> over the length \<open>R\<close>, drawing exactly where \<open>phaseDraw\<close> says, from accumulated
  length \<open>a\<close> on.
\<close>

definition phaseDraw :: "DashLine \<Rightarrow> real \<Rightarrow> bool" where
  "phaseDraw t a = even (fst (locate (t\<lparr>lineLength := a\<rparr>)))"

definition inPhase :: "DashLine \<Rightarrow> real \<Rightarrow> nat \<Rightarrow> real \<Rightarrow> bool" where
  "inPhase t a i r \<longleftrightarrow>
     i < length (dash t) \<and> r < dash t ! i * scale t \<and>
     (\<exists>k::nat. a + o_offset (options t) = real k * (dashSize t * scale t) + dashStartAt t i + r \<and>
        (0 \<le> r \<or> (k = 0 \<and> i = 0 \<and> - (dashSize t * scale t) < r)))"

definition tracesPhase ::
  "DashLine \<Rightarrow> real \<Rightarrow> Point \<Rightarrow> Point \<Rightarrow> real \<Rightarrow> call list \<Rightarrow> bool"
where
  "tracesPhase t a p q R os \<longleftrightarrow>
     penEnd p os = q \<and> sum_list (map snd (penMarks p os)) = R \<and>
     (\<forall>d. 0 \<le> d \<longrightarrow> drawnAt (penMarks p os) d = (d < R \<and> phaseDraw t (a + d)))"

text \<open>The length and the end of the polyline from \<open>p\<close> through the points of a list.\<close>

fun pathLength :: "Point \<Rightarrow> Point list \<Rightarrow> real" where
  "pathLength p [] = 0"
| "pathLength p (q # qs) = distance (px p) (py p) (px q) (py q) + pathLength q qs"

fun pathEnd :: "Point \<Rightarrow> Point list \<Rightarrow> Point" where
  "pathEnd p [] = p"
| "pathEnd p (q # qs) = pathEnd q qs"

text \<open>The tracer built with the default options on a fresh surface.\<close>

definition defaultTracer :: DashLine where
  "defaultTracer =
     \<lparr> graphics = [Stroke (Style 1 16777215 1 None None (1 / 2))], lineLength = 0,
       cursor = \<lparr>px = 0, py = 0\<rparr>, scale = 1, start = \<lparr>px = 0, py = 0\<rparr>, dashSize = 15,
       dash = [10, 5], useTexture = False, options = dashLineOptionsDefault \<rparr>"

section \<open>Auxiliary facts\<close>

subsection \<open>Directions and distances\<close>

lemma sqrt_one_plus_quot:
  fixes x y :: real
  assumes "x \<noteq> 0"
  shows "sqrt (1 + (y / x)\<^sup>2) = sqrt (x\<^sup>2 + y\<^sup>2) / \<bar>x\<bar>"
proof -
  have "1 + (y / x)\<^sup>2 = (x\<^sup>2 + y\<^sup>2) / x\<^sup>2"
    using assms by (simp add: power_divide add_divide_distrib)
  then show ?thesis
    by (simp add: real_sqrt_divide)
qed

lemma cos_atan2:
  assumes "x \<noteq> 0 \<or> y \<noteq> 0"
  shows "cos (atan2 y x) = x / sqrt (x\<^sup>2 + y\<^sup>2)"
proof -
  consider "0 < x" | "x < 0" | "x = 0" "0 < y" | "x = 0" "y < 0"
    using assms by linarith
  then show ?thesis
  proof cases
    case 1
    then show ?thesis
      by (simp add: atan2_def cos_arctan sqrt_one_plus_quot)
  next
    case 2
    then show ?thesis
      by (simp add: atan2_def cos_arctan sqrt_one_plus_quot)
  next
    case 3
    then show ?thesis by (simp add: atan2_def)
  next
    case 4
    then show ?thesis by (simp add: atan2_def)
  qed
qed

lemma sin_atan2:
  assumes "x \<noteq> 0 \<or> y \<noteq> 0"
  shows "sin (atan2 y x) = y / sqrt (x\<^sup>2 + y\<^sup>2)"
proof -
  consider "0 < x" | "x < 0" | "x = 0" "0 < y" | "x = 0" "y < 0"
    using assms by linarith
  then show ?thesis
  proof cases
    case 1
    then show ?thesis
      by (simp add: atan2_def sin_arctan sqrt_one_plus_quot)
  next
    case 2
    then show ?thesis
      by (simp add: atan2_def sin_arctan sqrt_one_plus_quot)
  next
    case 3
    then show ?thesis by (simp add: atan2_def)
  next
    case 4
    then show ?thesis by (simp add: atan2_def)
  qed
qed

lemma direction_of_distance:
  assumes "distance x0 y0 x y = L" "0 < L"
  shows "cos (atan2 (y - y0) (x - x0)) = (x - x0) / L"
    and "sin (atan2 (y - y0) (x - x0)) = (y - y0) / L"
proof -
  have nz: "x - x0 \<noteq> 0 \<or> y - y0 \<noteq> 0"
    using assms by (auto simp add: distance_def)
  show "cos (atan2 (y - y0) (x - x0)) = (x - x0) / L"
    using cos_atan2 [OF nz] assms(1) by (simp add: distance_def)
  show "sin (atan2 (y - y0) (x - x0)) = (y - y0) / L"
    using sin_atan2 [OF nz] assms(1) by (simp add: distance_def)
qed

lemma distance_nonneg: "0 \<le> distance x1 y1 x2 y2"
  by (simp add: distance_def)

lemma distance_self: "distance x y x y = 0"
  by (simp add: distance_def)

lemma distance_zero_iff: "distance x0 y0 x y = 0 \<longleftrightarrow> x = x0 \<and> y = y0"
  by (auto simp add: distance_def sum_power2_eq_zero_iff)

lemma distance_horizontal: "distance x1 y x2 y = \<bar>x2 - x1\<bar>"
  by (simp add: distance_def)

lemma distance_vertical: "distance x y1 x y2 = \<bar>y2 - y1\<bar>"
  by (simp add: distance_def)

lemma distance_step:
  assumes "c\<^sup>2 + s\<^sup>2 = 1"
  shows "distance (x0 + c * d) (y0 + s * d) (x0 + c * e) (y0 + s * e) = \<bar>e - d\<bar>"
proof -
  have "(x0 + c * e - (x0 + c * d))\<^sup>2 + (y0 + s * e - (y0 + s * d))\<^sup>2
          = (c\<^sup>2 + s\<^sup>2) * (e - d)\<^sup>2"
    by (simp add: algebra_simps power2_eq_square)
  then show ?thesis
    by (simp add: distance_def assms)
qed

lemma distance_from:
  assumes "c\<^sup>2 + s\<^sup>2 = 1"
  shows "distance x0 y0 (x0 + c * e) (y0 + s * e) = \<bar>e\<bar>"
  using distance_step [OF assms, of x0 0 y0 e] by simp

lemma atan2_origin: "atan2 0 0 = 0"
  by (simp add: atan2_def)

lemma direction_reaches_target:
  assumes "L = distance x0 y0 x y"
  shows "x = x0 + cos (atan2 (y - y0) (x - x0)) * L"
    and "y = y0 + sin (atan2 (y - y0) (x - x0)) * L"
proof -
  have "0 \<le> L"
    by (simp add: assms distance_def)
  then consider "L = 0" | "0 < L"
    by fastforce
  then have "x = x0 + cos (atan2 (y - y0) (x - x0)) * L \<and>
             y = y0 + sin (atan2 (y - y0) (x - x0)) * L"
  proof cases
    case 1
    with assms distance_zero_iff [of x0 y0 x y] show ?thesis
      by simp
  next
    case 2
    with direction_of_distance [OF assms [symmetric]] show ?thesis
      by simp
  qed
  then show "x = x0 + cos (atan2 (y - y0) (x - x0)) * L"
    and "y = y0 + sin (atan2 (y - y0) (x - x0)) * L"
    by simp_all
qed

subsection \<open>The remainder\<close>

lemma floor_rem_bounds:
  fixes u P :: real
  assumes "0 < P"
  shows "0 \<le> u - P * of_int \<lfloor>u / P\<rfloor>" and "u - P * of_int \<lfloor>u / P\<rfloor> < P"
proof -
  have "of_int \<lfloor>u / P\<rfloor> \<le> u / P"
    by simp
  then have "P * of_int \<lfloor>u / P\<rfloor> \<le> u"
    using assms by (simp add: le_divide_eq mult.commute)
  then show "0 \<le> u - P * of_int \<lfloor>u / P\<rfloor>"
    by simp
  have "u / P < of_int \<lfloor>u / P\<rfloor> + 1"
    by linarith
  then have "u < (of_int \<lfloor>u / P\<rfloor> + 1) * P"
    using assms by (simp only: pos_divide_less_eq)
  then show "u - P * of_int \<lfloor>u / P\<rfloor> < P"
    by (simp add: algebra_simps)
qed

lemma js_rem_nonneg:
  assumes "0 \<le> u" "0 < P"
  shows "js_rem u P = Some (u - P * of_int \<lfloor>u / P\<rfloor>)"
  using assms by (simp add: js_rem_def js_trunc_def)

lemma js_rem_less:
  assumes "0 < P"
  shows "\<exists>q. js_rem u P = Some q \<and> q < P"
proof (cases "0 \<le> u")
  case True
  with assms floor_rem_bounds(2) [OF assms, of u] show ?thesis
    by (simp add: js_rem_nonneg)
next
  case False
  then have neg: "u / P < 0"
    using assms by (simp add: divide_less_0_iff)
  have "u / P \<le> of_int \<lceil>u / P\<rceil>"
    by simp
  then have "u \<le> of_int \<lceil>u / P\<rceil> * P"
    using assms by (simp only: pos_divide_le_eq)
  then have "u - P * of_int \<lceil>u / P\<rceil> < P"
    using assms by (simp add: mult.commute)
  with neg assms show ?thesis
    by (simp add: js_rem_def js_trunc_def)
qed

lemma js_rem_period:
  assumes P: "0 < P" and q: "0 \<le> q" "q < P"
  shows "js_rem (real k * P + q) P = Some q"
proof -
  have "(real k * P + q) / P = real k + q / P"
    using P by (simp add: add_divide_distrib)
  moreover have "0 \<le> q / P" "q / P < 1"
    using P q by simp_all
  ultimately have fl: "\<lfloor>(real k * P + q) / P\<rfloor> = int k"
    by (simp add: floor_eq_iff)
  have "0 \<le> real k * P + q"
    using P q by simp
  from js_rem_nonneg [OF this P] fl show ?thesis
    by simp
qed

lemma js_rem_small_negative:
  assumes P: "0 < P" and q: "- P < q" "q < 0"
  shows "js_rem q P = Some q"
proof -
  have "- 1 < q / P" "q / P < 0"
    using P q by (simp_all add: pos_less_divide_eq divide_less_0_iff)
  then have "\<lceil>q / P\<rceil> = 0"
    by (simp add: ceiling_eq_iff)
  with \<open>q / P < 0\<close> P show ?thesis
    by (simp add: js_rem_def js_trunc_def)
qed

subsection \<open>Construction and configuration\<close>

lemma foldl_add_sum_list: "foldl (+) a xs = a + sum_list xs" for a :: real
  by (induction xs arbitrary: a) simp_all

lemma constructor_fields:
  assumes "constructor g opts = Inr t"
  shows "dash t = o_dash opts" "scale t = (if o_useTexture opts then 1 else o_scale opts)"
    "options t = opts"
    "useTexture t = o_useTexture opts" "dashSize t = sum_list (o_dash opts)"
    "o_dash opts \<noteq> []" "lineLength t = 0"
proof -
  from assms obtain a as where dash: "o_dash opts = a # as"
    by (cases "o_dash opts") (simp_all add: constructor_def reduce_add_def)
  show "dash t = o_dash opts" "scale t = (if o_useTexture opts then 1 else o_scale opts)"
    "options t = opts"
    "useTexture t = o_useTexture opts" "dashSize t = sum_list (o_dash opts)"
    "o_dash opts \<noteq> []" "lineLength t = 0"
    using assms
    by (cases "o_useTexture opts";
        auto simp add: constructor_def reduce_add_def setStrokeStyle_def dash
          foldl_add_sum_list)+
qed

lemma constructor_default: "constructor [] dashLineOptionsDefault = Inr defaultTracer"
  by (simp add: constructor_def reduce_add_def dashLineOptionsDefault_def setStrokeStyle_def
      defaultTracer_def)

lemma wellConfigured_constructor:
  assumes "constructor g opts = Inr t" "\<forall>d \<in> set (o_dash opts). 0 < d" "0 < o_scale opts"
  shows "wellConfigured t"
  using constructor_fields [OF assms(1)] assms(2,3) by (simp add: wellConfigured_def)

lemma wellConfigured_moveTo: "wellConfigured (moveTo t x y) = wellConfigured t"
  by (simp add: wellConfigured_def moveTo_def)

lemma wellConfigured_lineTo:
  assumes "lineTo t x y cp = Some t'"
  shows "wellConfigured t' = wellConfigured t" and "lineLength t \<le> lineLength t'"
  using assms
  by (auto simp add: lineTo_def Let_def wellConfigured_def distance_nonneg
      split: if_splits option.splits)

lemma wellConfigured_lineLength:
  "wellConfigured (t\<lparr>lineLength := a\<rparr>) = wellConfigured t"
  by (simp add: wellConfigured_def)

lemma defaultTracer_wellConfigured: "wellConfigured (defaultTracer\<lparr>lineLength := L\<rparr>)"
  by (simp add: wellConfigured_def defaultTracer_def)

lemma period_scaled:
  "sum_list (map (\<lambda>d. d * sc) ds) = sum_list ds * sc" for sc :: real
  by (induction ds) (simp_all add: algebra_simps)

lemma wellConfigured_period_pos:
  assumes "wellConfigured t"
  shows "0 < dashSize t * scale t"
proof -
  from assms obtain d ds where "dash t = d # ds"
    by (cases "dash t") (auto simp add: wellConfigured_def)
  with assms have "0 < d" "\<forall>x \<in> set ds. 0 \<le> x"
    by (auto simp add: wellConfigured_def intro: less_imp_le)
  then have "0 < d" "0 \<le> sum_list ds"
    by (simp_all add: sum_list_nonneg)
  with assms \<open>dash t = d # ds\<close> show ?thesis
    by (simp add: wellConfigured_def)
qed

lemma dash_lower_bound:
  fixes sc :: real
  assumes "\<forall>d \<in> set ds. 0 < d" "0 < sc"
  shows "\<exists>m > 0. \<forall>d \<in> set ds. m \<le> d * sc"
  using assms
proof (induction ds)
  case Nil
  show ?case
    by (auto intro: exI [of _ 1])
next
  case (Cons d ds)
  then obtain m where m: "0 < m" "\<forall>d \<in> set ds. m \<le> d * sc"
    by auto
  from Cons.prems have "0 < d * sc"
    by simp
  with m have "0 < min m (d * sc) \<and> (\<forall>e \<in> set (d # ds). min m (d * sc) \<le> e * sc)"
    by auto
  then show ?case
    by blast
qed

subsection \<open>The phase lookup\<close>

lemma sum_list_scaled_nonneg:
  fixes sc :: real
  assumes "\<forall>d \<in> set ds. 0 < d" "0 < sc"
  shows "0 \<le> sum_list (map (\<lambda>d. d * sc) ds)"
  using assms by (intro sum_list_nonneg) auto

lemma findDash_hit:
  fixes sc :: real
  assumes "\<forall>d \<in> set ds. 0 < d" "0 < sc" "i < length ds"
    and "X + sum_list (map (\<lambda>d. d * sc) (take i ds)) \<le> p"
    and "p < X + sum_list (map (\<lambda>d. d * sc) (take i ds)) + ds ! i * sc"
  shows "findDash ds sc p k X = (k + i, p - (X + sum_list (map (\<lambda>d. d * sc) (take i ds))))"
  using assms
proof (induction ds arbitrary: i k X)
  case Nil
  then show ?case by simp
next
  case (Cons d ds)
  show ?case
  proof (cases i)
    case 0
    with Cons.prems show ?thesis by simp
  next
    case (Suc j)
    have pos: "\<forall>d \<in> set (take j ds). 0 < d"
      using Cons.prems(1) by (auto dest: in_set_takeD)
    have "0 \<le> sum_list (map (\<lambda>d. d * sc) (take j ds))"
      using sum_list_scaled_nonneg [OF pos Cons.prems(2)] .
    with Cons.prems Suc have not_here: "\<not> p < X + d * sc"
      by simp
    have "findDash ds sc p (Suc k) (X + d * sc)
            = (Suc k + j, p - (X + d * sc + sum_list (map (\<lambda>d. d * sc) (take j ds))))"
      using Cons.prems Suc by (intro Cons.IH) (simp_all add: algebra_simps)
    with not_here Suc show ?thesis
      by (simp add: algebra_simps)
  qed
qed

lemma dash_interval_exists:
  fixes sc :: real
  assumes "\<forall>d \<in> set ds. 0 < d" "0 < sc" "X \<le> p" "p < X + sum_list (map (\<lambda>d. d * sc) ds)"
  shows "\<exists>i < length ds. X + sum_list (map (\<lambda>d. d * sc) (take i ds)) \<le> p \<and>
           p < X + sum_list (map (\<lambda>d. d * sc) (take i ds)) + ds ! i * sc"
  using assms
proof (induction ds arbitrary: X)
  case Nil
  then show ?case by simp
next
  case (Cons d ds)
  show ?case
  proof (cases "p < X + d * sc")
    case True
    with Cons.prems have "X + sum_list (map (\<lambda>d. d * sc) (take 0 (d # ds))) \<le> p \<and>
           p < X + sum_list (map (\<lambda>d. d * sc) (take 0 (d # ds))) + (d # ds) ! 0 * sc"
      by simp
    then show ?thesis by blast
  next
    case False
    with Cons.prems have "\<exists>i < length ds. (X + d * sc) + sum_list (map (\<lambda>d. d * sc) (take i ds)) \<le> p \<and>
           p < (X + d * sc) + sum_list (map (\<lambda>d. d * sc) (take i ds)) + ds ! i * sc"
      by (intro Cons.IH) (simp_all add: algebra_simps)
    then obtain i where "i < length ds"
      "(X + d * sc) + sum_list (map (\<lambda>d. d * sc) (take i ds)) \<le> p"
      "p < (X + d * sc) + sum_list (map (\<lambda>d. d * sc) (take i ds)) + ds ! i * sc"
      by blast
    then have "Suc i < length (d # ds) \<and>
       X + sum_list (map (\<lambda>d. d * sc) (take (Suc i) (d # ds))) \<le> p \<and>
           p < X + sum_list (map (\<lambda>d. d * sc) (take (Suc i) (d # ds))) + (d # ds) ! Suc i * sc"
      by (simp add: algebra_simps)
    then show ?thesis by blast
  qed
qed

lemma locate_hit:
  assumes wc: "wellConfigured t"
    and place: "dashPlace t = Some place"
    and i: "i < length (dash t)"
    and lo: "dashStartAt t i \<le> place"
    and hi: "place < dashStartAt t i + dash t ! i * scale t"
  shows "locate t = (i, place - dashStartAt t i)"
  using findDash_hit [of "dash t" "scale t" i 0 place 0] assms
  by (simp add: locate_def dashStartAt_def wellConfigured_def)

lemma locate_upper:
  assumes wc: "wellConfigured t"
  shows "fst (locate t) < length (dash t) \<and> snd (locate t) < dash t ! fst (locate t) * scale t"
proof -
  have P: "0 < dashSize t * scale t"
    using wellConfigured_period_pos [OF wc] .
  from js_rem_less [OF P] obtain place where dp: "dashPlace t = Some place"
    and less: "place < dashSize t * scale t"
    by (auto simp add: dashPlace_def)
  from wc have pos: "\<forall>d \<in> set (dash t). 0 < d" "0 < scale t"
    by (simp_all add: wellConfigured_def)
  show ?thesis
  proof (cases "0 \<le> place")
    case True
    from less wc have "place < sum_list (map (\<lambda>d. d * scale t) (dash t))"
      by (simp add: period_scaled wellConfigured_def)
    with dash_interval_exists [OF pos, of 0 place] True
    obtain i where i: "i < length (dash t)" "dashStartAt t i \<le> place"
      "place < dashStartAt t i + dash t ! i * scale t"
      by (auto simp add: dashStartAt_def)
    from locate_hit [OF wc dp i] i show ?thesis
      by simp
  next
    case False
    from wc obtain d ds where d: "dash t = d # ds"
      by (cases "dash t") (auto simp add: wellConfigured_def)
    with pos have "0 < d * scale t"
      by simp
    with False d dp show ?thesis
      by (simp add: locate_def)
  qed
qed

lemma dashStartAt_simps:
  "dashStartAt (t\<lparr>lineLength := a\<rparr>) i = dashStartAt t i"
  by (simp add: dashStartAt_def)

lemma dashStartAt_nonneg:
  assumes "wellConfigured t"
  shows "0 \<le> dashStartAt t i"
  unfolding dashStartAt_def
  using assms by (intro sum_list_scaled_nonneg) (auto simp add: wellConfigured_def dest: in_set_takeD)

lemma dashStartAt_Suc:
  assumes "i < length (dash t)"
  shows "dashStartAt t (Suc i) = dashStartAt t i + dash t ! i * scale t"
  using assms by (simp add: dashStartAt_def take_Suc_conv_app_nth)

lemma dashStartAt_all:
  "dashStartAt t (length (dash t)) = dashSize t * scale t" if "wellConfigured t"
  using that by (simp add: dashStartAt_def period_scaled wellConfigured_def)

lemma dashStartAt_mono:
  assumes wc: "wellConfigured t" and "i \<le> length (dash t)"
  shows "dashStartAt t i \<le> dashSize t * scale t"
proof -
  have "dash t = take i (dash t) @ drop i (dash t)"
    by simp
  then have "sum_list (map (\<lambda>d. d * scale t) (dash t)) =
      dashStartAt t i + sum_list (map (\<lambda>d. d * scale t) (drop i (dash t)))"
    unfolding dashStartAt_def by (metis map_append sum_list_append)
  moreover have "0 \<le> sum_list (map (\<lambda>d. d * scale t) (drop i (dash t)))"
    using wc by (intro sum_list_scaled_nonneg) (auto simp add: wellConfigured_def dest: in_set_dropD)
  ultimately show ?thesis
    using wc by (simp add: period_scaled wellConfigured_def)
qed

lemma inPhase_locate:
  assumes wc: "wellConfigured t" and ph: "inPhase t a i r"
    and d: "0 \<le> d" "d < dash t ! i * scale t - r"
  shows "locate (t\<lparr>lineLength := a + d\<rparr>) = (i, r + d)"
proof -
  let ?t = "t\<lparr>lineLength := a + d\<rparr>"
  let ?P = "dashSize t * scale t"
  have P: "0 < ?P"
    using wellConfigured_period_pos [OF wc] .
  from ph obtain k :: nat where i: "i < length (dash t)"
    and k: "a + o_offset (options t) = real k * ?P + dashStartAt t i + r"
    and sign: "0 \<le> r \<or> (k = 0 \<and> i = 0 \<and> - ?P < r)"
    by (auto simp add: inPhase_def)
  have wc': "wellConfigured ?t"
    using wc by (simp add: wellConfigured_lineLength)
  have u: "a + d + o_offset (options t) = real k * ?P + (dashStartAt t i + r + d)"
    using k by simp
  show ?thesis
  proof (cases "0 \<le> r + d")
    case True
    have start0: "0 \<le> r \<or> dashStartAt t i = 0"
      using sign by (auto simp add: dashStartAt_def)
    have lo: "dashStartAt t i \<le> dashStartAt t i + r + d"
      using True start0 d by auto
    have q0: "0 \<le> dashStartAt t i + r + d"
      using dashStartAt_nonneg [OF wc, of i] True by simp
    have "dashStartAt t i + r + d < dashStartAt t (Suc i)"
      using d i by (simp add: dashStartAt_Suc)
    also have "\<dots> \<le> ?P"
      using dashStartAt_mono [OF wc, of "Suc i"] i by simp
    finally have q1: "dashStartAt t i + r + d < ?P" .
    have dp: "dashPlace ?t = Some (dashStartAt t i + r + d)"
      using js_rem_period [OF P q0 q1, of k] by (simp add: dashPlace_def u)
    have "locate ?t = (i, (dashStartAt t i + r + d) - dashStartAt ?t i)"
      using i lo d by (intro locate_hit [OF wc' dp]) (simp_all add: dashStartAt_simps)
    then show ?thesis
      by (simp add: dashStartAt_simps)
  next
    case False
    with d sign have neg: "k = 0" "i = 0" "- ?P < r"
      by auto
    then have start: "dashStartAt t i = 0"
      by (simp add: dashStartAt_def)
    have dp: "dashPlace ?t = Some (r + d)"
      using js_rem_small_negative [OF P, of "r + d"] False neg d
      by (simp add: dashPlace_def u dashStartAt_def)
    from wc obtain e es where e: "dash t = e # es"
      by (cases "dash t") (auto simp add: wellConfigured_def)
    with d neg have "r + d < e * scale t"
      by simp
    with dp e neg show ?thesis
      by (simp add: locate_def)
  qed
qed

lemma inPhase_next:
  assumes wc: "wellConfigured t" and ph: "inPhase t a i r"
    and i': "i' = (if Suc i = length (dash t) then 0 else Suc i)"
  shows "inPhase t (a + (dash t ! i * scale t - r)) i' 0"
proof -
  let ?P = "dashSize t * scale t"
  from ph obtain k :: nat where i: "i < length (dash t)"
    and k: "a + o_offset (options t) = real k * ?P + dashStartAt t i + r"
    by (auto simp add: inPhase_def)
  have i'_less: "i' < length (dash t)"
    using i by (cases "dash t") (auto simp add: i')
  from wc i'_less have pos: "0 < dash t ! i' * scale t"
    by (simp add: wellConfigured_def)
  have eq: "a + (dash t ! i * scale t - r) + o_offset (options t)
      = real k * ?P + dashStartAt t (Suc i)"
    using k i by (simp add: dashStartAt_Suc)
  show ?thesis
  proof (cases "Suc i = length (dash t)")
    case True
    then have "i' = 0"
      by (simp add: i')
    have "a + (dash t ! i * scale t - r) + o_offset (options t)
      = real (Suc k) * ?P + dashStartAt t 0 + 0"
      using eq True dashStartAt_all [OF wc] by (simp add: dashStartAt_def algebra_simps)
    with i'_less pos \<open>i' = 0\<close> show ?thesis
      unfolding inPhase_def by blast
  next
    case False
    then have "i' = Suc i"
      by (simp add: i')
    with eq have "a + (dash t ! i * scale t - r) + o_offset (options t)
      = real k * ?P + dashStartAt t i' + 0"
      by simp
    with i'_less pos show ?thesis
      unfolding inPhase_def by blast
  qed
qed

lemma inPhase_start:
  assumes wc: "wellConfigured t"
    and u: "- (dashSize t * scale t) < lineLength t + o_offset (options t)"
  shows "inPhase t (lineLength t) (fst (locate t)) (snd (locate t))"
proof -
  let ?P = "dashSize t * scale t"
  let ?u = "lineLength t + o_offset (options t)"
  have P: "0 < ?P"
    using wellConfigured_period_pos [OF wc] .
  from wc have pos: "\<forall>d \<in> set (dash t). 0 < d" "0 < scale t"
    by (simp_all add: wellConfigured_def)
  show ?thesis
  proof (cases "0 \<le> ?u")
    case True
    define place where "place = ?u - ?P * of_int \<lfloor>?u / ?P\<rfloor>"
    have dp: "dashPlace t = Some place"
      using js_rem_nonneg [OF True P] by (simp add: dashPlace_def place_def)
    have range: "0 \<le> place" "place < sum_list (map (\<lambda>d. d * scale t) (dash t))"
      using floor_rem_bounds [OF P, of ?u] wc
      by (simp_all add: place_def period_scaled wellConfigured_def)
    from dash_interval_exists [OF pos, of 0 place] range
    obtain i where i: "i < length (dash t)" "dashStartAt t i \<le> place"
      "place < dashStartAt t i + dash t ! i * scale t"
      by (auto simp add: dashStartAt_def)
    have loc: "locate t = (i, place - dashStartAt t i)"
      using locate_hit [OF wc dp i] .
    have "0 \<le> ?u / ?P"
      using True P by simp
    then have "0 \<le> \<lfloor>?u / ?P\<rfloor>"
      by simp
    then have "real (nat \<lfloor>?u / ?P\<rfloor>) = of_int \<lfloor>?u / ?P\<rfloor>"
      by simp
    then have "?u = real (nat \<lfloor>?u / ?P\<rfloor>) * ?P + dashStartAt t i + (place - dashStartAt t i)"
      by (simp add: place_def algebra_simps)
    moreover have "0 \<le> place - dashStartAt t i" "place - dashStartAt t i < dash t ! i * scale t"
      using i by simp_all
    ultimately show ?thesis
      unfolding inPhase_def loc using i(1) by auto
  next
    case False
    then have neg: "?u < 0"
      by simp
    have dp: "dashPlace t = Some ?u"
      using js_rem_small_negative [OF P u neg] by (simp add: dashPlace_def)
    from wc obtain e es where e: "dash t = e # es"
      by (cases "dash t") (auto simp add: wellConfigured_def)
    with pos have "0 < e * scale t"
      by simp
    with neg dp e have loc: "locate t = (0, ?u)"
      by (simp add: locate_def)
    have "?u = real 0 * ?P + dashStartAt t 0 + ?u"
      by (simp add: dashStartAt_def)
    with neg u e \<open>0 < e * scale t\<close> show ?thesis
      unfolding inPhase_def loc by (auto simp add: dashStartAt_def)
  qed
qed

subsection \<open>The stride loop\<close>

lemma strideLoop_done:
  assumes "R \<le> 0"
  shows "strideLoop t cl c s x0 y0 i r R g = Some g"
  using assms by (subst strideLoop.simps) simp

lemma strideLoop_unfold:
  assumes "0 < R"
    and "adv = (if R > dash t ! i * scale t - r then dash t ! i * scale t - r else R)"
    and "i' = (if Suc i = length (dash t) then 0 else Suc i)"
    and "call = (if odd i then MoveTo (x0 + c * adv) (y0 + s * adv)
                 else LineTo (x0 + c * adv) (y0 + s * adv))"
  shows "strideLoop t cl c s x0 y0 i r R g =
    (if cl \<and> distance (x0 + c * adv) (y0 + s * adv) (px (start t)) (py (start t)) \<le> adv
     then Some (if even i
                then g @ [LineTo
                   (x0 + c * (distance x0 y0 (px (start t)) (py (start t))
                                - last (dash t) * scale t))
                   (y0 + s * (distance x0 y0 (px (start t)) (py (start t))
                                - last (dash t) * scale t))]
                else g)
     else strideLoop t cl c s (x0 + c * adv) (y0 + s * adv) i' 0 (R - adv) (g @ [call]))"
  unfolding assms(2-4)
  by (subst strideLoop.simps) (simp add: Let_def assms(1))

lemma strideLoop_zero_dash_aux:
  assumes "strideLoop t cl c s x0 y0 i r R g = Some y"
  shows "\<not> (dash t = [0] \<and> \<not> cl \<and> i = 0 \<and> r = 0 \<and> 0 < R)"
proof (rule strideLoop.raw_induct
    [where P = "\<lambda>t cl c s x0 y0 i r R g y. \<not> (dash t = [0] \<and> \<not> cl \<and> i = 0 \<and> r = 0 \<and> 0 < R)",
      OF _ assms])
  fix loop :: "DashLine \<Rightarrow> bool \<Rightarrow> real \<Rightarrow> real \<Rightarrow> real \<Rightarrow> real \<Rightarrow> nat \<Rightarrow> real \<Rightarrow> real
      \<Rightarrow> call list \<Rightarrow> call list option"
  fix t cl c s x0 y0 i r R g y
  assume IH: "\<And>t cl c s x0 y0 i r R g y. loop t cl c s x0 y0 i r R g = Some y \<Longrightarrow>
      \<not> (dash t = [0] \<and> \<not> cl \<and> i = 0 \<and> r = 0 \<and> (0::real) < R)"
  assume body: "(if 0 < R
      then let dashSize = dash t ! i * scale t - r;
               dist = if dashSize < R then dashSize else R
           in if cl \<and> distance (x0 + c * dist) (y0 + s * dist) (px (start t)) (py (start t)) \<le> dist
              then if even i
                   then let lastDash = distance x0 y0 (px (start t)) (py (start t)) - last (dash t) * scale t
                        in Some (g @ [LineTo (x0 + c * lastDash) (y0 + s * lastDash)])
                   else Some g
              else loop t cl c s (x0 + c * dist) (y0 + s * dist)
                    (if Suc i = length (dash t) then 0 else Suc i) 0 (R - dist)
                    (g @ [if odd i then MoveTo (x0 + c * dist) (y0 + s * dist)
                          else LineTo (x0 + c * dist) (y0 + s * dist)])
      else Some g) = Some y"
  show "\<not> (dash t = [0] \<and> \<not> cl \<and> i = 0 \<and> r = 0 \<and> 0 < R)"
  proof
    assume stuck: "dash t = [0] \<and> \<not> cl \<and> i = 0 \<and> r = 0 \<and> 0 < R"
    with body have "loop t cl c s x0 y0 0 0 R (g @ [LineTo x0 y0]) = Some y"
      by simp
    from IH [OF this] stuck show False
      by simp
  qed
qed

lemma strideLoop_zero_dash_diverges:
  assumes "dash t = [0]" "0 < R"
  shows "strideLoop t False c s x0 y0 0 0 R g = None"
proof (cases "strideLoop t False c s x0 y0 0 0 R g")
  case None
  then show ?thesis .
next
  case (Some y)
  from strideLoop_zero_dash_aux [OF this] assms show ?thesis
    by simp
qed

lemma lineTo_zero_length:
  "lineTo t (px (cursor t)) (py (cursor t)) cp =
     Some (if useTexture t
           then t\<lparr>graphics := graphics t @
                  [MoveTo (px (cursor t)) (py (cursor t)),
                   Stroke (WithMatrix
                     ((if scale t \<noteq> 1 then [Scale (scale t) (scale t)] else []) @
                      [Translate (px (cursor t) - (lineLength t + o_offset (options t)))
                         (py (cursor t))]))] @
                  (if cp \<and> px (cursor t) = px (start t) \<and> py (cursor t) = py (start t)
                        \<and> even (length (dash t))
                   then [LineTo (px (cursor t) - min (last (dash t)) 0) (py (cursor t)),
                         ClosePath]
                   else [LineTo (px (cursor t)) (py (cursor t))])\<rparr>
           else t)"
  by (simp add: lineTo_def distance_self atan2_origin adjustStrokeStyle_def strideLoop.simps Let_def)

subsection \<open>The seam rule on the strides of the plain walk\<close>

lemma stride_step:
  assumes cs: "c\<^sup>2 + s\<^sup>2 = 1"
    and R: "0 < R" and ds: "0 < dash t ! i * scale t - r"
    and adv: "adv = (if R > dash t ! i * scale t - r then dash t ! i * scale t - r else R)"
    and sx: "px (start t) = x0 + c * R" and sy: "py (start t) = y0 + s * R"
    and spx: "px sp = px (start t) - c * (last (dash t) * scale t)"
    and spy: "py sp = py (start t) - s * (last (dash t) * scale t)"
    and call: "call = (if odd i then MoveTo (x0 + c * adv) (y0 + s * adv)
                       else LineTo (x0 + c * adv) (y0 + s * adv))"
    and i': "i' = (if Suc i = length (dash t) then 0 else Suc i)"
    and rec_open: "strideLoop t False c s (x0 + c * adv) (y0 + s * adv) i' 0 (R - adv)
                     (g @ [call]) = Some ((g @ [call]) @ os)"
    and rec_closed: "strideLoop t True c s (x0 + c * adv) (y0 + s * adv) i' 0 (R - adv)
                     (g @ [call]) =
                     Some ((g @ [call]) @
                        seamRule (start t) sp \<lparr>px = x0 + c * adv, py = y0 + s * adv\<rparr> os)"
  shows "strideLoop t False c s x0 y0 i r R g = Some (g @ call # os) \<and>
         strideLoop t True c s x0 y0 i r R g =
           Some (g @ seamRule (start t) sp \<lparr>px = x0, py = y0\<rparr> (call # os))"
proof -
  note unfold = strideLoop_unfold [OF R adv i' call]
  have adv_pos: "0 < adv" "adv \<le> R"
    using R ds adv by (simp_all split: if_splits)
  have to_start: "distance (x0 + c * adv) (y0 + s * adv) (px (start t)) (py (start t)) = R - adv"
    using distance_step [OF cs, of x0 adv y0 R] adv_pos by (simp add: sx sy)
  have from_p: "distance x0 y0 (x0 + c * adv) (y0 + s * adv) = adv"
    using distance_from [OF cs, of x0 y0 adv] adv_pos by simp
  have whole: "distance x0 y0 (px (start t)) (py (start t)) = R"
    using distance_from [OF cs, of x0 y0 R] R by (simp add: sx sy)
  have seam: "x0 + c * (R - last (dash t) * scale t) = px sp"
    "y0 + s * (R - last (dash t) * scale t) = py sp"
    by (simp_all add: spx spy sx sy algebra_simps)
  have shape: "seamRule (start t) sp \<lparr>px = x0, py = y0\<rparr> (call # os) =
      (if R - adv \<le> adv then (if even i then [LineTo (px sp) (py sp)] else [])
       else call # seamRule (start t) sp \<lparr>px = x0 + c * adv, py = y0 + s * adv\<rparr> os)"
    by (cases "even i") (simp_all add: call to_start from_p)
  have "strideLoop t False c s x0 y0 i r R g = Some (g @ call # os)"
    by (simp add: unfold [of False] rec_open)
  moreover have "strideLoop t True c s x0 y0 i r R g =
           Some (g @ seamRule (start t) sp \<lparr>px = x0, py = y0\<rparr> (call # os))"
    by (simp add: unfold [of True] rec_closed shape to_start whole seam)
  ultimately show ?thesis
    by simp
qed

lemma strideLoop_seam:
  assumes cs: "c\<^sup>2 + s\<^sup>2 = 1"
    and m: "0 < m" and lower: "\<forall>d \<in> set (dash t). m \<le> d * scale t"
    and spx: "px sp = px (start t) - c * (last (dash t) * scale t)"
    and spy: "py sp = py (start t) - s * (last (dash t) * scale t)"
  shows "i < length (dash t) \<Longrightarrow> r < dash t ! i * scale t \<Longrightarrow>
     R \<le> dash t ! i * scale t - r + real n * m \<Longrightarrow>
     px (start t) = x0 + c * R \<Longrightarrow> py (start t) = y0 + s * R \<Longrightarrow>
     \<exists>os. strideLoop t False c s x0 y0 i r R g = Some (g @ os) \<and>
          strideLoop t True c s x0 y0 i r R g =
            Some (g @ seamRule (start t) sp \<lparr>px = x0, py = y0\<rparr> os)"
proof (induction n arbitrary: i r R x0 y0 g)
  case 0
  show ?case
  proof (cases "0 < R")
    case False
    then have "strideLoop t False c s x0 y0 i r R g = Some (g @ []) \<and>
          strideLoop t True c s x0 y0 i r R g =
            Some (g @ seamRule (start t) sp \<lparr>px = x0, py = y0\<rparr> [])"
      by (simp add: strideLoop_done)
    then show ?thesis
      by blast
  next
    case True
    define adv where "adv = (if R > dash t ! i * scale t - r then dash t ! i * scale t - r else R)"
    define call where "call = (if odd i then MoveTo (x0 + c * adv) (y0 + s * adv)
                       else LineTo (x0 + c * adv) (y0 + s * adv))"
    define i' where "i' = (if Suc i = length (dash t) then 0 else Suc i)"
    from "0.prems" have "adv = R"
      by (simp add: adv_def)
    then have rest: "R - adv \<le> 0"
      by simp
    have ds: "0 < dash t ! i * scale t - r"
      using "0.prems" by simp
    have "strideLoop t False c s x0 y0 i r R g = Some (g @ call # []) \<and>
         strideLoop t True c s x0 y0 i r R g =
           Some (g @ seamRule (start t) sp \<lparr>px = x0, py = y0\<rparr> (call # []))"
      using cs True ds adv_def "0.prems"(4,5) spx spy call_def i'_def
      by (rule stride_step) (simp_all add: strideLoop_done [OF rest])
    then show ?thesis
      by blast
  qed
next
  case (Suc n)
  show ?case
  proof (cases "0 < R")
    case False
    then have "strideLoop t False c s x0 y0 i r R g = Some (g @ []) \<and>
          strideLoop t True c s x0 y0 i r R g =
            Some (g @ seamRule (start t) sp \<lparr>px = x0, py = y0\<rparr> [])"
      by (simp add: strideLoop_done)
    then show ?thesis
      by blast
  next
    case True
    define adv where "adv = (if R > dash t ! i * scale t - r then dash t ! i * scale t - r else R)"
    define call where "call = (if odd i then MoveTo (x0 + c * adv) (y0 + s * adv)
                       else LineTo (x0 + c * adv) (y0 + s * adv))"
    define i' where "i' = (if Suc i = length (dash t) then 0 else Suc i)"
    have ds: "0 < dash t ! i * scale t - r"
      using Suc.prems by simp
    have i'_less: "i' < length (dash t)"
      using Suc.prems(1) by (cases "dash t") (auto simp add: i'_def)
    then have next_len: "m \<le> dash t ! i' * scale t"
      using lower by simp
    with m have r0: "0 < dash t ! i' * scale t"
      by simp
    have bound: "R - adv \<le> dash t ! i' * scale t - 0 + real n * m"
    proof (cases "R > dash t ! i * scale t - r")
      case True
      with Suc.prems(3) have "R - adv \<le> real n * m + m"
        by (simp add: adv_def algebra_simps)
      with next_len show ?thesis
        by simp
    next
      case False
      then have "R - adv = 0"
        by (simp add: adv_def)
      with r0 m show ?thesis
        by simp
    qed
    have sx: "px (start t) = (x0 + c * adv) + c * (R - adv)"
      and sy: "py (start t) = (y0 + s * adv) + s * (R - adv)"
      using Suc.prems(4,5) by (simp_all add: algebra_simps)
    from Suc.IH [OF i'_less r0 bound sx sy, of "g @ [call]"]
    obtain os where os:
      "strideLoop t False c s (x0 + c * adv) (y0 + s * adv) i' 0 (R - adv) (g @ [call])
         = Some ((g @ [call]) @ os)"
      "strideLoop t True c s (x0 + c * adv) (y0 + s * adv) i' 0 (R - adv) (g @ [call])
         = Some ((g @ [call]) @
             seamRule (start t) sp \<lparr>px = x0 + c * adv, py = y0 + s * adv\<rparr> os)"
      by blast
    have "strideLoop t False c s x0 y0 i r R g = Some (g @ call # os) \<and>
         strideLoop t True c s x0 y0 i r R g =
           Some (g @ seamRule (start t) sp \<lparr>px = x0, py = y0\<rparr> (call # os))"
      using cs True ds adv_def Suc.prems(4,5) spx spy call_def i'_def os
      by (rule stride_step)
    then show ?thesis
      by blast
  qed
qed

subsection \<open>Pen traces and the phase\<close>

lemma penMarks_nonneg: "\<forall>m \<in> set (penMarks p os). 0 \<le> snd m"
  by (induction p os rule: penMarks.induct) (simp_all add: distance_nonneg)

lemma penMarks_append:
  "penMarks p (os1 @ os2) = penMarks p os1 @ penMarks (penEnd p os1) os2"
  by (induction p os1 rule: penMarks.induct) simp_all

lemma penEnd_append: "penEnd p (os1 @ os2) = penEnd (penEnd p os1) os2"
  by (induction p os1 rule: penEnd.induct) simp_all

lemma drawnAt_append:
  assumes "\<forall>m \<in> set ms1. 0 \<le> snd m" and "0 \<le> d"
  shows "drawnAt (ms1 @ ms2) d =
     (if d < sum_list (map snd ms1) then drawnAt ms1 d
      else drawnAt ms2 (d - sum_list (map snd ms1)))"
  using assms
proof (induction ms1 arbitrary: d)
  case Nil
  then show ?case by simp
next
  case (Cons m ms1)
  obtain b l where m: "m = (b, l)"
    by (cases m)
  from Cons.prems have "0 \<le> sum_list (map snd ms1)"
    by (intro sum_list_nonneg) auto
  with Cons m show ?case
    by (auto simp add: algebra_simps)
qed

lemma tracesPhase_Nil: "tracesPhase t a p p 0 []"
  by (simp add: tracesPhase_def)

lemma tracesPhase_append:
  assumes one: "tracesPhase t a p q R1 os1" and two: "tracesPhase t (a + R1) q q' R2 os2"
    and R2: "0 \<le> R2"
  shows "tracesPhase t a p q' (R1 + R2) (os1 @ os2)"
proof -
  from one have e1: "penEnd p os1 = q" and s1: "sum_list (map snd (penMarks p os1)) = R1"
    and d1: "\<And>d. 0 \<le> d \<Longrightarrow> drawnAt (penMarks p os1) d = (d < R1 \<and> phaseDraw t (a + d))"
    by (simp_all add: tracesPhase_def)
  from two have e2: "penEnd q os2 = q'" and s2: "sum_list (map snd (penMarks q os2)) = R2"
    and d2: "\<And>d. 0 \<le> d \<Longrightarrow> drawnAt (penMarks q os2) d = (d < R2 \<and> phaseDraw t (a + R1 + d))"
    by (simp_all add: tracesPhase_def)
  have "drawnAt (penMarks p (os1 @ os2)) d = (d < R1 + R2 \<and> phaseDraw t (a + d))"
    if "0 \<le> d" for d
  proof (cases "d < R1")
    case True
    with that R2 show ?thesis
      by (simp add: penMarks_append drawnAt_append [OF penMarks_nonneg that] e1 s1 d1)
  next
    case False
    then have "0 \<le> d - R1"
      by simp
    have "(d - R1 < R2) = (d < R1 + R2)"
      by auto
    with d2 [OF \<open>0 \<le> d - R1\<close>] False show ?thesis
      by (simp add: penMarks_append drawnAt_append [OF penMarks_nonneg that] e1 s1)
  qed
  then show ?thesis
    by (simp add: tracesPhase_def penEnd_append penMarks_append e1 e2 s1 s2)
qed

lemma tracesPhase_stride:
  assumes cs: "c\<^sup>2 + s\<^sup>2 = 1" and wc: "wellConfigured t" and ph: "inPhase t a i r"
    and adv: "0 < adv" "adv \<le> dash t ! i * scale t - r"
    and call: "call = (if odd i then MoveTo (x0 + c * adv) (y0 + s * adv)
                       else LineTo (x0 + c * adv) (y0 + s * adv))"
  shows "tracesPhase t a \<lparr>px = x0, py = y0\<rparr> \<lparr>px = x0 + c * adv, py = y0 + s * adv\<rparr> adv [call]"
proof -
  have len: "distance x0 y0 (x0 + c * adv) (y0 + s * adv) = adv"
    using distance_from [OF cs, of x0 y0 adv] adv by simp
  have marks: "penMarks \<lparr>px = x0, py = y0\<rparr> [call] = [(even i, adv)]"
    and fin: "penEnd \<lparr>px = x0, py = y0\<rparr> [call] = \<lparr>px = x0 + c * adv, py = y0 + s * adv\<rparr>"
    by (cases "even i"; simp add: call len)+
  have "phaseDraw t (a + d) = even i" if "0 \<le> d" "d < adv" for d
    using inPhase_locate [OF wc ph that(1)] that(2) adv(2) by (simp add: phaseDraw_def)
  then show ?thesis
    by (auto simp add: tracesPhase_def marks fin)
qed

lemma walk_extend:
  assumes cs: "c\<^sup>2 + s\<^sup>2 = 1" and wc: "wellConfigured t" and ph: "inPhase t a i r"
    and R: "0 < R"
    and adv: "adv = (if R > dash t ! i * scale t - r then dash t ! i * scale t - r else R)"
    and i': "i' = (if Suc i = length (dash t) then 0 else Suc i)"
    and call: "call = (if odd i then MoveTo (x0 + c * adv) (y0 + s * adv)
                       else LineTo (x0 + c * adv) (y0 + s * adv))"
    and rest: "strideLoop t False c s (x0 + c * adv) (y0 + s * adv) i' 0 (R - adv) (g @ [call])
                 = Some ((g @ [call]) @ os)"
      "tracesPhase t (a + adv) \<lparr>px = x0 + c * adv, py = y0 + s * adv\<rparr>
         \<lparr>px = x0 + c * adv + c * (R - adv), py = y0 + s * adv + s * (R - adv)\<rparr> (R - adv) os"
  shows "strideLoop t False c s x0 y0 i r R g = Some (g @ call # os) \<and>
         tracesPhase t a \<lparr>px = x0, py = y0\<rparr> \<lparr>px = x0 + c * R, py = y0 + s * R\<rparr> R (call # os)"
proof -
  from ph have "0 < dash t ! i * scale t - r"
    by (simp add: inPhase_def)
  with R have bounds: "0 < adv" "adv \<le> dash t ! i * scale t - r" "adv \<le> R"
    by (simp_all add: adv)
  have "strideLoop t False c s x0 y0 i r R g = Some (g @ call # os)"
    by (simp add: strideLoop_unfold [OF R adv i' call, of False] rest(1))
  moreover have "tracesPhase t a \<lparr>px = x0, py = y0\<rparr>
      \<lparr>px = x0 + c * adv + c * (R - adv), py = y0 + s * adv + s * (R - adv)\<rparr>
      (adv + (R - adv)) ([call] @ os)"
    using tracesPhase_stride [OF cs wc ph bounds(1,2) call] rest(2) bounds(3)
    by (intro tracesPhase_append) simp_all
  moreover have "x0 + c * adv + c * (R - adv) = x0 + c * R"
    "y0 + s * adv + s * (R - adv) = y0 + s * R"
    by (simp_all add: algebra_simps)
  ultimately show ?thesis
    by simp
qed

lemma walk_rest_zero:
  assumes "R - adv = 0"
  shows "strideLoop t False c s x y i 0 (R - adv) g = Some (g @ []) \<and>
     tracesPhase t b \<lparr>px = x, py = y\<rparr>
       \<lparr>px = x + c * (R - adv), py = y + s * (R - adv)\<rparr> (R - adv) []"
  by (simp add: assms strideLoop_done tracesPhase_Nil)

lemma strideLoop_phase:
  assumes cs: "c\<^sup>2 + s\<^sup>2 = 1" and wc: "wellConfigured t"
    and m: "0 < m" and lower: "\<forall>d \<in> set (dash t). m \<le> d * scale t"
  shows "inPhase t a i r \<Longrightarrow> 0 \<le> R \<Longrightarrow> R \<le> dash t ! i * scale t - r + real n * m \<Longrightarrow>
     \<exists>os. strideLoop t False c s x0 y0 i r R g = Some (g @ os) \<and>
          tracesPhase t a \<lparr>px = x0, py = y0\<rparr> \<lparr>px = x0 + c * R, py = y0 + s * R\<rparr> R os"
proof (induction n arbitrary: a i r R x0 y0 g)
  case 0
  show ?case
  proof (cases "0 < R")
    case False
    with "0.prems"(2) have "R = 0"
      by simp
    then have "strideLoop t False c s x0 y0 i r R g = Some (g @ []) \<and>
        tracesPhase t a \<lparr>px = x0, py = y0\<rparr> \<lparr>px = x0 + c * R, py = y0 + s * R\<rparr> R []"
      by (simp add: strideLoop_done tracesPhase_Nil)
    then show ?thesis
      by blast
  next
    case True
    define adv where "adv = (if R > dash t ! i * scale t - r then dash t ! i * scale t - r else R)"
    define call where "call = (if odd i then MoveTo (x0 + c * adv) (y0 + s * adv)
                       else LineTo (x0 + c * adv) (y0 + s * adv))"
    define i' where "i' = (if Suc i = length (dash t) then 0 else Suc i)"
    from "0.prems" have "R - adv = 0"
      by (simp add: adv_def)
    from walk_rest_zero [OF this]
    have "strideLoop t False c s (x0 + c * adv) (y0 + s * adv) i' 0 (R - adv) (g @ [call])
                 = Some ((g @ [call]) @ [])"
      "tracesPhase t (a + adv) \<lparr>px = x0 + c * adv, py = y0 + s * adv\<rparr>
         \<lparr>px = x0 + c * adv + c * (R - adv), py = y0 + s * adv + s * (R - adv)\<rparr> (R - adv) []"
      by blast+
    with cs wc "0.prems"(1) True adv_def i'_def call_def
    have "strideLoop t False c s x0 y0 i r R g = Some (g @ call # []) \<and>
         tracesPhase t a \<lparr>px = x0, py = y0\<rparr> \<lparr>px = x0 + c * R, py = y0 + s * R\<rparr> R (call # [])"
      by (rule walk_extend)
    then show ?thesis
      by blast
  qed
next
  case (Suc n)
  show ?case
  proof (cases "0 < R")
    case False
    with Suc.prems(2) have "R = 0"
      by simp
    then have "strideLoop t False c s x0 y0 i r R g = Some (g @ []) \<and>
        tracesPhase t a \<lparr>px = x0, py = y0\<rparr> \<lparr>px = x0 + c * R, py = y0 + s * R\<rparr> R []"
      by (simp add: strideLoop_done tracesPhase_Nil)
    then show ?thesis
      by blast
  next
    case True
    define adv where "adv = (if R > dash t ! i * scale t - r then dash t ! i * scale t - r else R)"
    define call where "call = (if odd i then MoveTo (x0 + c * adv) (y0 + s * adv)
                       else LineTo (x0 + c * adv) (y0 + s * adv))"
    define i' where "i' = (if Suc i = length (dash t) then 0 else Suc i)"
    have "\<exists>os. strideLoop t False c s (x0 + c * adv) (y0 + s * adv) i' 0 (R - adv) (g @ [call])
                 = Some ((g @ [call]) @ os) \<and>
      tracesPhase t (a + adv) \<lparr>px = x0 + c * adv, py = y0 + s * adv\<rparr>
         \<lparr>px = x0 + c * adv + c * (R - adv), py = y0 + s * adv + s * (R - adv)\<rparr> (R - adv) os"
    proof (cases "R > dash t ! i * scale t - r")
      case False
      then have "R - adv = 0"
        by (simp add: adv_def)
      from walk_rest_zero [OF this] show ?thesis
        by blast
    next
      case True
      then have adv: "adv = dash t ! i * scale t - r"
        by (simp add: adv_def)
      have ph': "inPhase t (a + adv) i' 0"
        unfolding adv using wc Suc.prems(1) i'_def by (rule inPhase_next)
      then have "i' < length (dash t)"
        by (simp add: inPhase_def)
      with lower have "m \<le> dash t ! i' * scale t"
        by simp
      with Suc.prems(3) have bound: "R - adv \<le> dash t ! i' * scale t - 0 + real n * m"
        by (simp add: adv algebra_simps)
      have "0 \<le> R - adv"
        using True adv by simp
      from Suc.IH [OF ph' this bound] show ?thesis .
    qed
    then obtain os where
      "strideLoop t False c s (x0 + c * adv) (y0 + s * adv) i' 0 (R - adv) (g @ [call])
                 = Some ((g @ [call]) @ os)"
      "tracesPhase t (a + adv) \<lparr>px = x0 + c * adv, py = y0 + s * adv\<rparr>
         \<lparr>px = x0 + c * adv + c * (R - adv), py = y0 + s * adv + s * (R - adv)\<rparr> (R - adv) os"
      by blast
    with cs wc Suc.prems(1) \<open>0 < R\<close> adv_def i'_def call_def
    have "strideLoop t False c s x0 y0 i r R g = Some (g @ call # os) \<and>
         tracesPhase t a \<lparr>px = x0, py = y0\<rparr> \<lparr>px = x0 + c * R, py = y0 + s * R\<rparr> R (call # os)"
      by (rule walk_extend)
    then show ?thesis
      by blast
  qed
qed

lemma phaseDraw_cong:
  assumes "dash t' = dash t" "scale t' = scale t" "dashSize t' = dashSize t" "options t' = options t"
  shows "phaseDraw t' = phaseDraw t"
  using assms
  by (auto simp add: phaseDraw_def locate_def dashPlace_def fun_eq_iff split: option.splits)

lemma tracesPhase_cong:
  assumes "dash t' = dash t" "scale t' = scale t" "dashSize t' = dashSize t" "options t' = options t"
  shows "tracesPhase t' = tracesPhase t"
  by (simp add: tracesPhase_def phaseDraw_cong [OF assms] fun_eq_iff)

lemma lineTo_phase:
  assumes wc: "wellConfigured t" and vec: "\<not> useTexture t"
    and off: "- (dashSize t * scale t) < lineLength t + o_offset (options t)"
    and L: "L = distance (px (cursor t)) (py (cursor t)) x y"
  shows "\<exists>os. lineTo t x y False =
            Some (t\<lparr>graphics := graphics t @ os, lineLength := lineLength t + L,
                    cursor := \<lparr>px = x, py = y\<rparr>\<rparr>) \<and>
          tracesPhase t (lineLength t) (cursor t) \<lparr>px = x, py = y\<rparr> L os"
proof -
  define c where "c = cos (atan2 (y - py (cursor t)) (x - px (cursor t)))"
  define s where "s = sin (atan2 (y - py (cursor t)) (x - px (cursor t)))"
  have cs: "c\<^sup>2 + s\<^sup>2 = 1"
    by (simp add: c_def s_def)
  have reach: "px (cursor t) + c * L = x" "py (cursor t) + s * L = y"
    using direction_reaches_target [OF L] by (simp_all add: c_def s_def)
  have cur: "\<lparr>px = px (cursor t), py = py (cursor t)\<rparr> = cursor t"
    by simp
  have L0: "0 \<le> L"
    by (simp add: L distance_nonneg)
  from wc have pos: "\<forall>d \<in> set (dash t). 0 < d" "0 < scale t"
    by (simp_all add: wellConfigured_def)
  from dash_lower_bound [OF pos] obtain m
    where m: "0 < m" "\<forall>d \<in> set (dash t). m \<le> d * scale t"
    by blast
  note ph = inPhase_start [OF wc off]
  have "L / m \<le> real (nat \<lceil>L / m\<rceil>)"
    by linarith
  then have "L \<le> real (nat \<lceil>L / m\<rceil>) * m"
    using m(1) by (simp only: pos_divide_le_eq)
  moreover from ph have "0 < dash t ! fst (locate t) * scale t - snd (locate t)"
    by (simp add: inPhase_def)
  ultimately have bound: "L \<le> dash t ! fst (locate t) * scale t - snd (locate t)
        + real (nat \<lceil>L / m\<rceil>) * m"
    by simp
  from strideLoop_phase [OF cs wc m ph L0 bound, of "px (cursor t)" "py (cursor t)" "graphics t"]
  obtain os where os: "strideLoop t False c s (px (cursor t)) (py (cursor t)) (fst (locate t))
        (snd (locate t)) L (graphics t) = Some (graphics t @ os)"
    "tracesPhase t (lineLength t) (cursor t) \<lparr>px = x, py = y\<rparr> L os"
    unfolding reach cur by blast
  have "lineTo t x y False =
     Some (t\<lparr>graphics := graphics t @ os, lineLength := lineLength t + L,
                cursor := \<lparr>px = x, py = y\<rparr>\<rparr>)"
    using vec os(1) by (simp add: lineTo_def Let_def L [symmetric] c_def [symmetric] s_def [symmetric])
  with os(2) show ?thesis
    by blast
qed

lemma lineTos_phase:
  assumes "wellConfigured t" "\<not> useTexture t"
    and "- (dashSize t * scale t) < lineLength t + o_offset (options t)"
  shows "\<exists>os t'. lineTos t pts = Some t' \<and> graphics t' = graphics t @ os \<and>
     tracesPhase t (lineLength t) (cursor t) (pathEnd (cursor t) pts) (pathLength (cursor t) pts) os"
  using assms
proof (induction pts arbitrary: t)
  case Nil
  then show ?case
    by (simp add: tracesPhase_Nil)
next
  case (Cons q qs)
  define L where "L = distance (px (cursor t)) (py (cursor t)) (px q) (py q)"
  from lineTo_phase [OF Cons.prems L_def] obtain os1
    where step: "lineTo t (px q) (py q) False =
            Some (t\<lparr>graphics := graphics t @ os1, lineLength := lineLength t + L,
                    cursor := \<lparr>px = px q, py = py q\<rparr>\<rparr>)"
      and tr1: "tracesPhase t (lineLength t) (cursor t) \<lparr>px = px q, py = py q\<rparr> L os1"
    by blast
  let ?t1 = "t\<lparr>graphics := graphics t @ os1, lineLength := lineLength t + L,
                    cursor := \<lparr>px = px q, py = py q\<rparr>\<rparr>"
  have L0: "0 \<le> L"
    by (simp add: L_def distance_nonneg)
  have wc1: "wellConfigured ?t1" and vec1: "\<not> useTexture ?t1"
    using Cons.prems by (simp_all add: wellConfigured_def)
  have off1: "- (dashSize ?t1 * scale ?t1) < lineLength ?t1 + o_offset (options ?t1)"
    using Cons.prems(3) L0 by simp
  from Cons.IH [OF wc1 vec1 off1] obtain os2 t'
    where rest: "lineTos ?t1 qs = Some t'" "graphics t' = graphics ?t1 @ os2"
      and tr2: "tracesPhase ?t1 (lineLength ?t1) (cursor ?t1) (pathEnd (cursor ?t1) qs)
                  (pathLength (cursor ?t1) qs) os2"
    by blast
  have same: "tracesPhase ?t1 = tracesPhase t"
    by (rule tracesPhase_cong) simp_all
  have q: "\<lparr>px = px q, py = py q\<rparr> = q"
    by simp
  have len2: "0 \<le> pathLength q qs"
    by (induction qs arbitrary: q) (simp_all add: distance_nonneg)
  from tr2 have tr2': "tracesPhase t (lineLength t + L) q (pathEnd q qs) (pathLength q qs) os2"
    unfolding same by (simp add: q)
  from tr1 have "tracesPhase t (lineLength t) (cursor t) q L os1"
    by (simp add: q)
  from tracesPhase_append [OF this tr2' len2]
  have "tracesPhase t (lineLength t) (cursor t) (pathEnd (cursor t) (q # qs))
          (pathLength (cursor t) (q # qs)) (os1 @ os2)"
    by (simp add: L_def)
  moreover have "lineTos t (q # qs) = Some t'"
    using step rest(1) by simp
  moreover have "graphics t' = graphics t @ os1 @ os2"
    using rest(2) by simp
  ultimately show ?case
    by blast
qed

subsection \<open>Circle and flattener\<close>

declare circleTargets.simps [simp del]

lemma flattenCubic_props:
  "flattenCubic cap p0 p1 p2 p3 tol \<noteq> [] \<and> last (flattenCubic cap p0 p1 p2 p3 tol) = p3 \<and>
   length (flattenCubic cap p0 p1 p2 p3 tol) \<le> 2 ^ cap"
proof (induction cap arbitrary: p0 p1 p2 p3)
  case 0
  show ?case by simp
next
  case (Suc cap)
  let ?l = "flattenCubic cap p0 (midpoint p0 p1) (midpoint (midpoint p0 p1) (midpoint p1 p2))
     (midpoint (midpoint (midpoint p0 p1) (midpoint p1 p2)) (midpoint (midpoint p1 p2) (midpoint p2 p3))) tol"
  let ?r = "flattenCubic cap 
     (midpoint (midpoint (midpoint p0 p1) (midpoint p1 p2)) (midpoint (midpoint p1 p2) (midpoint p2 p3)))
     (midpoint (midpoint p1 p2) (midpoint p2 p3)) (midpoint p2 p3) p3 tol"
  have l: "length ?l \<le> 2 ^ cap" and r: "?r \<noteq> []" "last ?r = p3" "length ?r \<le> 2 ^ cap"
    using Suc.IH by blast+
  have one: "(1::nat) \<le> 2 * 2 ^ cap"
    by (simp add: Suc_leI)
  from l r one show ?case
    by (simp add: Let_def)
qed

lemma flattenQuadratic_props:
  "flattenQuadratic cap p0 p1 p2 tol \<noteq> [] \<and> last (flattenQuadratic cap p0 p1 p2 tol) = p2 \<and>
   length (flattenQuadratic cap p0 p1 p2 tol) \<le> 2 ^ cap"
proof (induction cap arbitrary: p0 p1 p2)
  case 0
  show ?case by simp
next
  case (Suc cap)
  let ?l = "flattenQuadratic cap p0 (midpoint p0 p1) (midpoint (midpoint p0 p1) (midpoint p1 p2)) tol"
  let ?r = "flattenQuadratic cap (midpoint (midpoint p0 p1) (midpoint p1 p2)) (midpoint p1 p2) p2 tol"
  have l: "length ?l \<le> 2 ^ cap" and r: "?r \<noteq> []" "last ?r = p2" "length ?r \<le> 2 ^ cap"
    using Suc.IH by blast+
  have one: "(1::nat) \<le> 2 * 2 ^ cap"
    by (simp add: Suc_leI)
  from l r one show ?case
    by (simp add: Let_def)
qed

section \<open>Properties\<close>

text \<open>
  C1 fails on the code for an offset below minus one scaled period. With pattern
  \<open>[10, 5]\<close>, scale 1 and offset \<open>- 20\<close>, the rectangle with corners \<open>(0, 0)\<close> and
  \<open>(16, 14)\<close>, drawn as four chained \<open>lineTo\<close> calls after one \<open>moveTo\<close>, is drawn over the
  accumulated distances \<open>[0, 15]\<close>, \<open>[16, 30]\<close>, \<open>[35, 45]\<close> and \<open>[50, 60]\<close>, while the
  straight line of the same length 60 is drawn over \<open>[0, 15]\<close>, \<open>[20, 30]\<close>, \<open>[35, 45]\<close>
  and \<open>[50, 60]\<close>: after the first corner, at distance 16, the remainder of the negative
  phase \<open>- 4\<close> is negative and the lookup resumes in the first dash instead of the gap.
\<close>

theorem phase_breaks_at_negative_offset:
  "constructor [] (dashLineOptionsDefault\<lparr>o_offset := - 20\<rparr>) =
     Inr (defaultTracer\<lparr>options := dashLineOptionsDefault\<lparr>o_offset := - 20\<rparr>\<rparr>) \<and>
   lineTos (moveTo (defaultTracer\<lparr>options := dashLineOptionsDefault\<lparr>o_offset := - 20\<rparr>\<rparr>) 0 0)
     [\<lparr>px = 16, py = 0\<rparr>, \<lparr>px = 16, py = 14\<rparr>, \<lparr>px = 0, py = 14\<rparr>, \<lparr>px = 0, py = 0\<rparr>] =
     Some (defaultTracer\<lparr> graphics := graphics defaultTracer @
       [MoveTo 0 0, LineTo 15 0, MoveTo 16 0, LineTo 16 14, MoveTo 11 14, LineTo 1 14,
        MoveTo 0 14, MoveTo 0 10, LineTo 0 0],
       lineLength := 60, options := dashLineOptionsDefault\<lparr>o_offset := - 20\<rparr> \<rparr>) \<and>
   lineTo (moveTo (defaultTracer\<lparr>options := dashLineOptionsDefault\<lparr>o_offset := - 20\<rparr>\<rparr>) 0 0)
     60 0 False =
     Some (defaultTracer\<lparr> graphics := graphics defaultTracer @
       [MoveTo 0 0, LineTo 15 0, MoveTo 20 0, LineTo 30 0, MoveTo 35 0, LineTo 45 0,
        MoveTo 50 0, LineTo 60 0],
       lineLength := 60, cursor := \<lparr>px = 60, py = 0\<rparr>,
       options := dashLineOptionsDefault\<lparr>o_offset := - 20\<rparr> \<rparr>) \<and>
   drawnAt (penMarks \<lparr>px = 0, py = 0\<rparr>
       [LineTo 15 0, MoveTo 16 0, LineTo 16 14, MoveTo 11 14, LineTo 1 14,
        MoveTo 0 14, MoveTo 0 10, LineTo 0 0]) 17 \<and>
   \<not> drawnAt (penMarks \<lparr>px = 0, py = 0\<rparr>
       [LineTo 15 0, MoveTo 20 0, LineTo 30 0, MoveTo 35 0, LineTo 45 0,
        MoveTo 50 0, LineTo 60 0]) 17"
proof -
  have "drawnAt (penMarks \<lparr>px = 0, py = 0\<rparr>
       [LineTo 15 0, MoveTo 16 0, LineTo 16 14, MoveTo 11 14, LineTo 1 14,
        MoveTo 0 14, MoveTo 0 10, LineTo 0 0]) 17"
    by (simp add: distance_horizontal distance_vertical)
  moreover have "\<not> drawnAt (penMarks \<lparr>px = 0, py = 0\<rparr>
       [LineTo 15 0, MoveTo 20 0, LineTo 30 0, MoveTo 35 0, LineTo 45 0,
        MoveTo 50 0, LineTo 60 0]) 17"
    by (simp add: distance_horizontal)
  ultimately show ?thesis
    by (simp add: constructor_def reduce_add_def setStrokeStyle_def defaultTracer_def
      dashLineOptionsDefault_def moveTo_def lineTo_def locate_def dashPlace_def js_rem_def
      js_trunc_def distance_horizontal distance_vertical atan2_def strideLoop.simps)
qed

text \<open>
  Phase continuity, where it holds. In vector mode, for a pattern of positive entries, a
  positive scale and an offset above minus one scaled period (every non-negative offset in
  particular), the rectangle drawn as four chained plain \<open>lineTo\<close> calls after one
  \<open>moveTo\<close> and the straight line of the same length have the pen down at the same
  accumulated distances.
\<close>

lemma phase_continuity_rectangle:
  assumes wc: "wellConfigured t" and vec: "\<not> useTexture t"
    and off: "- (dashSize t * scale t) < o_offset (options t)"
    and len: "distance x0 y0 x1 y1 = 2 * \<bar>w\<bar> + 2 * \<bar>h\<bar>"
  shows "\<exists>tr tl osr osl.
      lineTos (moveTo t x y)
        [\<lparr>px = x + w, py = y\<rparr>, \<lparr>px = x + w, py = y + h\<rparr>, \<lparr>px = x, py = y + h\<rparr>,
         \<lparr>px = x, py = y\<rparr>] = Some tr \<and>
      graphics tr = graphics t @ MoveTo x y # osr \<and>
      lineTo (moveTo t x0 y0) x1 y1 False = Some tl \<and>
      graphics tl = graphics t @ MoveTo x0 y0 # osl \<and>
      (\<forall>d. 0 \<le> d \<longrightarrow>
         drawnAt (penMarks \<lparr>px = x, py = y\<rparr> osr) d =
         drawnAt (penMarks \<lparr>px = x0, py = y0\<rparr> osl) d)"
proof -
  let ?pts = "[\<lparr>px = x + w, py = y\<rparr>, \<lparr>px = x + w, py = y + h\<rparr>, \<lparr>px = x, py = y + h\<rparr>,
         \<lparr>px = x, py = y\<rparr>]"
  let ?Pm = "2 * \<bar>w\<bar> + 2 * \<bar>h\<bar>"
  have wcr: "wellConfigured (moveTo t x y)" and vecr: "\<not> useTexture (moveTo t x y)"
    and offr: "- (dashSize (moveTo t x y) * scale (moveTo t x y))
          < lineLength (moveTo t x y) + o_offset (options (moveTo t x y))"
    using wc vec off by (simp_all add: moveTo_def wellConfigured_def)
  from lineTos_phase [OF wcr vecr offr, of ?pts] obtain osr tr
    where r: "lineTos (moveTo t x y) ?pts = Some tr" "graphics tr = graphics (moveTo t x y) @ osr"
      and trr: "tracesPhase (moveTo t x y) 0 \<lparr>px = x, py = y\<rparr> \<lparr>px = x, py = y\<rparr>
                  (pathLength \<lparr>px = x, py = y\<rparr> ?pts) osr"
    by (auto simp add: moveTo_def)
  have perim: "pathLength \<lparr>px = x, py = y\<rparr> ?pts = ?Pm"
    by (simp add: distance_horizontal distance_vertical)
  have wcl: "wellConfigured (moveTo t x0 y0)" and vecl: "\<not> useTexture (moveTo t x0 y0)"
    and offl: "- (dashSize (moveTo t x0 y0) * scale (moveTo t x0 y0))
          < lineLength (moveTo t x0 y0) + o_offset (options (moveTo t x0 y0))"
    using wc vec off by (simp_all add: moveTo_def wellConfigured_def)
  have Ll: "?Pm = distance (px (cursor (moveTo t x0 y0))) (py (cursor (moveTo t x0 y0))) x1 y1"
    using len by (simp add: moveTo_def)
  from lineTo_phase [OF wcl vecl offl Ll] obtain osl
    where l: "lineTo (moveTo t x0 y0) x1 y1 False =
            Some ((moveTo t x0 y0)\<lparr>graphics := graphics (moveTo t x0 y0) @ osl,
                    lineLength := lineLength (moveTo t x0 y0) + ?Pm,
                    cursor := \<lparr>px = x1, py = y1\<rparr>\<rparr>)"
      and trl: "tracesPhase (moveTo t x0 y0) 0 \<lparr>px = x0, py = y0\<rparr> \<lparr>px = x1, py = y1\<rparr> ?Pm osl"
    by (auto simp add: moveTo_def)
  have sr: "tracesPhase (moveTo t x y) = tracesPhase t"
    and sl: "tracesPhase (moveTo t x0 y0) = tracesPhase t"
    by (rule tracesPhase_cong; simp add: moveTo_def)+
  have "drawnAt (penMarks \<lparr>px = x, py = y\<rparr> osr) d =
         drawnAt (penMarks \<lparr>px = x0, py = y0\<rparr> osl) d" if "0 \<le> d" for d
    using trr trl that unfolding sr sl perim by (simp add: tracesPhase_def)
  moreover have "graphics tr = graphics t @ MoveTo x y # osr"
    using r(2) by (simp add: moveTo_def)
  moreover have "graphics ((moveTo t x0 y0)\<lparr>graphics := graphics (moveTo t x0 y0) @ osl,
                    lineLength := lineLength (moveTo t x0 y0) + ?Pm,
                    cursor := \<lparr>px = x1, py = y1\<rparr>\<rparr>) = graphics t @ MoveTo x0 y0 # osl"
    by (simp add: moveTo_def)
  ultimately show ?thesis
    using r(1) l by blast
qed

text \<open>
  C2. In vector mode, for a pattern of positive entries and a positive scale, a \<open>lineTo\<close>
  to the start of the subpath with the closing flag returns, as the same call without the
  flag does, and what it issues on the surface is what the plain call issues, cut by the
  seam rule: the walk ends at the first stride whose end is no farther from the start of
  the subpath than the stride is long; if that stride is a draw, a draw to the seam point
  replaces it, the point one final gap \<open>last (dash t) * scale t\<close> back from the start
  along the segment; if it is a gap, nothing replaces it; no later stride is issued.
\<close>

theorem closing_seam_rule:
  assumes wc: "wellConfigured t" and vec: "\<not> useTexture t"
    and L: "L = distance (px (cursor t)) (py (cursor t)) (px (start t)) (py (start t))"
    and gap: "gap = last (dash t) * scale t"
    and sp: "sp = \<lparr>px = px (start t) - gap * ((px (start t) - px (cursor t)) / L),
                   py = py (start t) - gap * ((py (start t) - py (cursor t)) / L)\<rparr>"
  shows "\<exists>os tp. lineTo t (px (start t)) (py (start t)) False = Some tp \<and>
           graphics tp = graphics t @ os \<and>
           lineTo t (px (start t)) (py (start t)) True =
             Some (tp\<lparr>graphics := graphics t @ seamRule (start t) sp (cursor t) os\<rparr>)"
proof -
  define c where "c = cos (atan2 (py (start t) - py (cursor t)) (px (start t) - px (cursor t)))"
  define s where "s = sin (atan2 (py (start t) - py (cursor t)) (px (start t) - px (cursor t)))"
  have cs: "c\<^sup>2 + s\<^sup>2 = 1"
    by (simp add: c_def s_def)
  have reach: "px (start t) = px (cursor t) + c * L" "py (start t) = py (cursor t) + s * L"
    using direction_reaches_target [OF L] by (simp_all add: c_def s_def)
  have cur: "\<lparr>px = px (cursor t), py = py (cursor t)\<rparr> = cursor t"
    by simp
  have walk: "\<exists>os. strideLoop t False c s (px (cursor t)) (py (cursor t)) (fst (locate t))
                  (snd (locate t)) L (graphics t) = Some (graphics t @ os) \<and>
                strideLoop t True c s (px (cursor t)) (py (cursor t)) (fst (locate t))
                  (snd (locate t)) L (graphics t) =
                  Some (graphics t @ seamRule (start t) sp (cursor t) os)"
  proof (cases "0 < L")
    case False
    then have "strideLoop t False c s (px (cursor t)) (py (cursor t)) (fst (locate t))
                  (snd (locate t)) L (graphics t) = Some (graphics t @ []) \<and>
                strideLoop t True c s (px (cursor t)) (py (cursor t)) (fst (locate t))
                  (snd (locate t)) L (graphics t) =
                  Some (graphics t @ seamRule (start t) sp (cursor t) [])"
      by (simp add: strideLoop_done)
    then show ?thesis
      by blast
  next
    case True
    from wc have pos: "\<forall>d \<in> set (dash t). 0 < d" "0 < scale t"
      by (simp_all add: wellConfigured_def)
    from dash_lower_bound [OF pos] obtain m
      where m: "0 < m" "\<forall>d \<in> set (dash t). m \<le> d * scale t"
      by blast
    note loc = locate_upper [OF wc]
    have "L / m \<le> real (nat \<lceil>L / m\<rceil>)"
      by linarith
    then have "L \<le> real (nat \<lceil>L / m\<rceil>) * m"
      using m(1) by (simp only: pos_divide_le_eq)
    with loc have bound: "L \<le> dash t ! fst (locate t) * scale t - snd (locate t)
        + real (nat \<lceil>L / m\<rceil>) * m"
      by simp
    have dir: "c = (px (start t) - px (cursor t)) / L" "s = (py (start t) - py (cursor t)) / L"
      using direction_of_distance [OF L [symmetric] True] by (simp_all add: c_def s_def)
    have spx: "px sp = px (start t) - c * (last (dash t) * scale t)"
      and spy: "py sp = py (start t) - s * (last (dash t) * scale t)"
      by (simp_all add: sp gap dir)
    from strideLoop_seam [OF cs m spx spy _ _ bound reach, of "graphics t"] loc cur
    show ?thesis
      by simp
  qed
  then obtain os where os:
    "strideLoop t False c s (px (cursor t)) (py (cursor t)) (fst (locate t))
        (snd (locate t)) L (graphics t) = Some (graphics t @ os)"
    "strideLoop t True c s (px (cursor t)) (py (cursor t)) (fst (locate t))
        (snd (locate t)) L (graphics t) = Some (graphics t @ seamRule (start t) sp (cursor t) os)"
    by blast
  let ?tp = "t\<lparr>graphics := graphics t @ os, lineLength := lineLength t + L,
                cursor := \<lparr>px = px (start t), py = py (start t)\<rparr>\<rparr>"
  have "lineTo t (px (start t)) (py (start t)) False = Some ?tp"
    using vec os(1) by (simp add: lineTo_def Let_def L [symmetric] c_def [symmetric] s_def [symmetric])
  moreover have "lineTo t (px (start t)) (py (start t)) True =
      Some (?tp\<lparr>graphics := graphics t @ seamRule (start t) sp (cursor t) os\<rparr>)"
    using vec os(2) by (simp add: lineTo_def Let_def L [symmetric] c_def [symmetric] s_def [symmetric])
  moreover have "graphics ?tp = graphics t @ os"
    by simp
  ultimately show ?thesis
    by blast
qed

theorem closing_seam_rule_witness:
  "wellConfigured (defaultTracer\<lparr>lineLength := 32, cursor := \<lparr>px = 32, py = 0\<rparr>\<rparr>) \<and>
   lineTo (defaultTracer\<lparr>lineLength := 32, cursor := \<lparr>px = 32, py = 0\<rparr>\<rparr>) 0 0 False =
     Some (defaultTracer\<lparr>graphics := graphics defaultTracer @
             [LineTo 24 0, MoveTo 19 0, LineTo 9 0, MoveTo 4 0, LineTo 0 0],
             lineLength := 64, cursor := \<lparr>px = 0, py = 0\<rparr>\<rparr>) \<and>
   lineTo (defaultTracer\<lparr>lineLength := 32, cursor := \<lparr>px = 32, py = 0\<rparr>\<rparr>) 0 0 True =
     Some (defaultTracer\<lparr>graphics := graphics defaultTracer @
             [LineTo 24 0, MoveTo 19 0, LineTo 5 0],
             lineLength := 64, cursor := \<lparr>px = 0, py = 0\<rparr>\<rparr>)"
proof -
  let ?t = "defaultTracer\<lparr>lineLength := 32, cursor := \<lparr>px = 32, py = 0\<rparr>\<rparr>"
  let ?tp = "defaultTracer\<lparr>graphics := graphics defaultTracer @
             [LineTo 24 0, MoveTo 19 0, LineTo 9 0, MoveTo 4 0, LineTo 0 0],
             lineLength := 64, cursor := \<lparr>px = 0, py = 0\<rparr>\<rparr>"
  have wc: "wellConfigured ?t"
    by (simp add: wellConfigured_def defaultTracer_def)
  have vec: "\<not> useTexture ?t"
    by (simp add: defaultTracer_def)
  have st: "px (start ?t) = 0" "py (start ?t) = 0"
    by (simp_all add: defaultTracer_def)
  have L: "32 = distance (px (cursor ?t)) (py (cursor ?t)) (px (start ?t)) (py (start ?t))"
    by (simp add: defaultTracer_def distance_horizontal)
  have gap: "5 = last (dash ?t) * scale ?t"
    by (simp add: defaultTracer_def)
  have sp: "\<lparr>px = 5, py = 0\<rparr> =
       \<lparr>px = px (start ?t) - 5 * ((px (start ?t) - px (cursor ?t)) / 32),
        py = py (start ?t) - 5 * ((py (start ?t) - py (cursor ?t)) / 32)\<rparr>"
    by (simp add: defaultTracer_def)
  have loc: "locate ?t = (0, 2)"
    by (simp add: locate_def dashPlace_def js_rem_def js_trunc_def defaultTracer_def
        dashLineOptionsDefault_def)
  have opn: "lineTo ?t 0 0 False = Some ?tp"
    by (simp add: lineTo_def loc distance_horizontal atan2_def)
      (simp add: defaultTracer_def strideLoop.simps)
  from closing_seam_rule [OF wc vec L gap sp] obtain os tp
    where "lineTo ?t 0 0 False = Some tp" "graphics tp = graphics ?t @ os"
      and closed: "lineTo ?t 0 0 True =
         Some (tp\<lparr>graphics := graphics ?t @
            seamRule (start ?t) \<lparr>px = 5, py = 0\<rparr> (cursor ?t) os\<rparr>)"
    unfolding st by blast
  with opn have tp: "tp = ?tp" and os: "os = [LineTo 24 0, MoveTo 19 0, LineTo 9 0, MoveTo 4 0, LineTo 0 0]"
    by simp_all
  have "seamRule (start ?t) \<lparr>px = 5, py = 0\<rparr> (cursor ?t)
          [LineTo 24 0, MoveTo 19 0, LineTo 9 0, MoveTo 4 0, LineTo 0 0]
        = [LineTo 24 0, MoveTo 19 0, LineTo 5 0]"
    by (simp add: defaultTracer_def distance_horizontal)
  with closed tp os have "lineTo ?t 0 0 True =
     Some (defaultTracer\<lparr>graphics := graphics defaultTracer @
             [LineTo 24 0, MoveTo 19 0, LineTo 5 0],
             lineLength := 64, cursor := \<lparr>px = 0, py = 0\<rparr>\<rparr>)"
    by simp
  with wc opn show ?thesis
    by blast
qed

text \<open>
  C3. For a pattern with at least one entry and all entries positive, a positive scale, and
  a non-negative travelled distance and offset, the phase lookup at the head of a
  vector-mode \<open>lineTo\<close> returns an index within the pattern and a residual offset that is
  non-negative and smaller than the scaled length of the dash at that index.
\<close>

theorem locate_in_range:
  assumes wc: "wellConfigured t"
    and nonneg: "0 \<le> lineLength t" "0 \<le> o_offset (options t)"
  shows "fst (locate t) < length (dash t) \<and> 0 \<le> snd (locate t) \<and>
         snd (locate t) < dash t ! fst (locate t) * scale t"
proof -
  define P where "P = dashSize t * scale t"
  define u where "u = lineLength t + o_offset (options t)"
  define place where "place = u - P * of_int \<lfloor>u / P\<rfloor>"
  have P: "0 < P"
    using wellConfigured_period_pos [OF wc] by (simp add: P_def)
  have u: "0 \<le> u"
    using nonneg by (simp add: u_def)
  have dp: "dashPlace t = Some place"
    using js_rem_nonneg [OF u P] by (simp add: dashPlace_def place_def u_def P_def)
  have range: "0 \<le> place" "place < sum_list (map (\<lambda>d. d * scale t) (dash t))"
    using floor_rem_bounds [OF P, of u] wc
    by (simp_all add: place_def period_scaled P_def wellConfigured_def)
  from wc have pos: "\<forall>d \<in> set (dash t). 0 < d" "0 < scale t"
    by (simp_all add: wellConfigured_def)
  from dash_interval_exists [OF pos, of 0 place] range
  obtain i where i: "i < length (dash t)" "dashStartAt t i \<le> place"
    "place < dashStartAt t i + dash t ! i * scale t"
    by (auto simp add: dashStartAt_def)
  have "locate t = (i, place - dashStartAt t i)"
    using locate_hit [OF wc dp i] .
  with i show ?thesis
    by simp
qed

theorem locate_in_range_witness:
  "wellConfigured (defaultTracer\<lparr>lineLength := 32\<rparr>) \<and>
   locate (defaultTracer\<lparr>lineLength := 32\<rparr>) = (0, 2) \<and>
   fst (locate (defaultTracer\<lparr>lineLength := 32\<rparr>)) < length (dash (defaultTracer\<lparr>lineLength := 32\<rparr>))"
proof -
  let ?t = "defaultTracer\<lparr>lineLength := 32\<rparr>"
  have "fst (locate ?t) < length (dash ?t) \<and> 0 \<le> snd (locate ?t) \<and>
         snd (locate ?t) < dash ?t ! fst (locate ?t) * scale ?t"
    by (rule locate_in_range [OF defaultTracer_wellConfigured])
      (simp_all add: defaultTracer_def dashLineOptionsDefault_def)
  moreover have "locate ?t = (0, 2)"
    by (simp add: locate_def dashPlace_def js_rem_def js_trunc_def defaultTracer_def
      dashLineOptionsDefault_def)
  ultimately show ?thesis
    using defaultTracer_wellConfigured [of 32] by simp
qed

text \<open>
  C4, as the code has it. For a non-negative sum of distance and offset, the lookup
  computes \<open>place\<close> as that sum modulo the scaled period (the remainder of the floored
  division), and assigns it to the dash \<open>i\<close> whose half-open interval
  \<open>[dashStartAt i, dashStartAt i + dash ! i * scale)\<close> contains it, with the residual
  \<open>place - dashStartAt i\<close>. A place exactly on the boundary between two dashes lies in the
  interval of the later one: the later dash wins, with residual 0.
\<close>

theorem locate_half_open:
  assumes wc: "wellConfigured t"
    and u: "0 \<le> lineLength t + o_offset (options t)"
    and place: "place = (lineLength t + o_offset (options t))
                  - (dashSize t * scale t)
                    * of_int \<lfloor>(lineLength t + o_offset (options t)) / (dashSize t * scale t)\<rfloor>"
    and i: "i < length (dash t)"
    and lo: "dashStartAt t i \<le> place"
    and hi: "place < dashStartAt t i + dash t ! i * scale t"
  shows "dashPlace t = Some place \<and> locate t = (i, place - dashStartAt t i)"
proof -
  have dp: "dashPlace t = Some place"
    using js_rem_nonneg [OF u wellConfigured_period_pos [OF wc]] place
    by (simp add: dashPlace_def)
  with locate_hit [OF wc dp i lo hi] show ?thesis
    by simp
qed

theorem locate_half_open_witness:
  "wellConfigured (defaultTracer\<lparr>lineLength := 10\<rparr>) \<and>
   dashStartAt (defaultTracer\<lparr>lineLength := 10\<rparr>) 1 = 10 \<and>
   dashPlace (defaultTracer\<lparr>lineLength := 10\<rparr>) = Some 10 \<and>
   locate (defaultTracer\<lparr>lineLength := 10\<rparr>) = (1, 0)"
proof -
  let ?t = "defaultTracer\<lparr>lineLength := 10\<rparr>"
  have st: "dashStartAt ?t 1 = 10"
    by (simp add: dashStartAt_def defaultTracer_def)
  have u: "0 \<le> lineLength ?t + o_offset (options ?t)"
    by (simp add: defaultTracer_def dashLineOptionsDefault_def)
  have pl: "10 = (lineLength ?t + o_offset (options ?t))
                  - (dashSize ?t * scale ?t)
                    * of_int \<lfloor>(lineLength ?t + o_offset (options ?t)) / (dashSize ?t * scale ?t)\<rfloor>"
    by (simp add: defaultTracer_def dashLineOptionsDefault_def)
  have i: "1 < length (dash ?t)"
    by (simp add: defaultTracer_def)
  have lo: "dashStartAt ?t 1 \<le> 10"
    using st by simp
  have "dash ?t ! 1 * scale ?t = 5"
    by (simp add: defaultTracer_def)
  with st have hi: "10 < dashStartAt ?t 1 + dash ?t ! 1 * scale ?t"
    by simp
  from locate_half_open [OF defaultTracer_wellConfigured u pl i lo hi] st
    defaultTracer_wellConfigured [of 10]
  show ?thesis
    by simp
qed

text \<open>
  C4, as stated, fails on the boundary: with pattern \<open>[10, 5]\<close>, scale 1 and offset 0, the
  distance 10 is the boundary between dash 0 and dash 1, and the lookup returns dash 1
  with residual 0, not dash 0 with residual 10.
\<close>

theorem locate_boundary_counterexample:
  "locate (defaultTracer\<lparr>lineLength := 10\<rparr>) = (1, 0) \<and>
   locate (defaultTracer\<lparr>lineLength := 10\<rparr>) \<noteq> (0, 10)"
  by (simp add: locate_def dashPlace_def js_rem_def js_trunc_def defaultTracer_def
      dashLineOptionsDefault_def)

text \<open>
  C5. Take any tracer in vector mode with pattern \<open>[10, 5]\<close> (so \<open>dashSize\<close> 15), scale 1
  and offset 0, whatever its cursor, its accumulated length and the start of its subpath.
  A \<open>moveTo\<close> to \<open>(x0, y0)\<close> followed at once by one \<open>lineTo\<close> of length 32, in any direction
  \<open>(c, s)\<close>, issues exactly three draws and two pen lifts: draws over the distances
  \<open>[0, 10]\<close>, \<open>[15, 25]\<close> and \<open>[30, 32]\<close> from the start of the line, the last one cut to
  the 2 units that remain. Three is the ceiling of \<open>32 / 15\<close>.
\<close>

theorem lineTo_length_32_default_pattern:
  assumes cfg: "dash t = [10, 5]" "dashSize t = 15" "scale t = 1"
      "o_offset (options t) = 0" "\<not> useTexture t"
    and len: "distance x0 y0 x y = 32"
    and c: "c = (x - x0) / 32" and s: "s = (y - y0) / 32"
  shows "lineTo (moveTo t x0 y0) x y False =
    Some ((moveTo t x0 y0)\<lparr> graphics := graphics t @
       [MoveTo x0 y0,
        LineTo (x0 + c * 10) (y0 + s * 10),
        MoveTo (x0 + c * 15) (y0 + s * 15),
        LineTo (x0 + c * 25) (y0 + s * 25),
        MoveTo (x0 + c * 30) (y0 + s * 30),
        LineTo (x0 + c * 32) (y0 + s * 32)],
       lineLength := 32, cursor := \<lparr>px = x, py = y\<rparr> \<rparr>)
    \<and> nat \<lceil>32 / 15 :: real\<rceil> = 3"
proof -
  have dir: "cos (atan2 (y - y0) (x - x0)) = c" "sin (atan2 (y - y0) (x - x0)) = s"
    using direction_of_distance [OF len] c s by simp_all
  have loc: "locate (moveTo t x0 y0) = (0, 0)"
    using cfg by (simp add: locate_def dashPlace_def moveTo_def js_rem_def js_trunc_def)
  have "nat \<lceil>32 / 15 :: real\<rceil> = 3"
    by (simp add: ceiling_eq_iff)
  then show ?thesis
    using cfg len loc
    by (simp add: lineTo_def moveTo_def strideLoop.simps Let_def dir algebra_simps)
qed

theorem lineTo_length_32_default_pattern_witness:
  "dash (defaultTracer\<lparr>lineLength := 7, cursor := \<lparr>px = 7, py = 0\<rparr>\<rparr>) = [10, 5] \<and>
   lineLength (defaultTracer\<lparr>lineLength := 7, cursor := \<lparr>px = 7, py = 0\<rparr>\<rparr>) = 7 \<and>
   distance 0 0 32 0 = 32 \<and>
   lineTo (moveTo (defaultTracer\<lparr>lineLength := 7, cursor := \<lparr>px = 7, py = 0\<rparr>\<rparr>) 0 0)
       32 0 False =
     Some (defaultTracer\<lparr> graphics := graphics defaultTracer @
        [MoveTo 0 0, LineTo 10 0, MoveTo 15 0, LineTo 25 0, MoveTo 30 0, LineTo 32 0],
        lineLength := 32, cursor := \<lparr>px = 32, py = 0\<rparr> \<rparr>)"
proof -
  let ?t = "defaultTracer\<lparr>lineLength := 7, cursor := \<lparr>px = 7, py = 0\<rparr>\<rparr>"
  have cfg: "dash ?t = [10, 5]" "dashSize ?t = 15" "scale ?t = 1"
    "o_offset (options ?t) = 0" "\<not> useTexture ?t"
    by (simp_all add: defaultTracer_def dashLineOptionsDefault_def)
  have len: "distance 0 0 32 0 = 32"
    by (simp add: distance_def)
  have c: "(1::real) = (32 - 0) / 32" and s: "(0::real) = (0 - 0) / 32"
    by simp_all
  have "lineTo (moveTo ?t 0 0) 32 0 False =
     Some (defaultTracer\<lparr> graphics := graphics defaultTracer @
        [MoveTo 0 0, LineTo 10 0, MoveTo 15 0, LineTo 25 0, MoveTo 30 0, LineTo 32 0],
        lineLength := 32, cursor := \<lparr>px = 32, py = 0\<rparr> \<rparr>)"
    using lineTo_length_32_default_pattern [OF cfg len c s]
    by (simp add: moveTo_def defaultTracer_def)
  moreover have "lineLength ?t = 7"
    by simp
  ultimately show ?thesis
    using cfg(1) len by blast
qed

text \<open>
  C6, as the code has it. The constructor fails exactly when the pattern is empty, with the
  \<open>TypeError\<close> of the reduction; every other pattern is accepted, whatever its entries.
\<close>

theorem constructor_rejects_exactly_empty:
  "(constructor g opts = Inl TypeError) = (o_dash opts = []) \<and>
   isl (constructor g opts) = (o_dash opts = [])"
  by (simp add: constructor_def reduce_add_def split: list.splits)

text \<open>
  C6, as stated, fails for a non-positive entry: the pattern \<open>[0]\<close> is accepted by the
  constructor, and a later \<open>lineTo\<close> of positive length on the tracer it built never
  returns.
\<close>

theorem constructor_accepts_zero_dash:
  "constructor [] (dashLineOptionsDefault\<lparr>o_dash := [0]\<rparr>) =
     Inr (defaultTracer\<lparr>dashSize := 0, dash := [0],
            options := dashLineOptionsDefault\<lparr>o_dash := [0]\<rparr>\<rparr>) \<and>
   lineTo (defaultTracer\<lparr>dashSize := 0, dash := [0],
            options := dashLineOptionsDefault\<lparr>o_dash := [0]\<rparr>\<rparr>) 1 0 False = None"
proof -
  let ?t = "defaultTracer\<lparr>dashSize := 0, dash := [0],
            options := dashLineOptionsDefault\<lparr>o_dash := [0]\<rparr>\<rparr>"
  have "constructor [] (dashLineOptionsDefault\<lparr>o_dash := [0]\<rparr>) = Inr ?t"
    by (simp add: constructor_def reduce_add_def dashLineOptionsDefault_def setStrokeStyle_def
      defaultTracer_def)
  moreover have "locate ?t = (0, 0)"
    by (simp add: locate_def dashPlace_def js_rem_def defaultTracer_def)
  then have "lineTo ?t 1 0 False = None"
    using strideLoop_zero_dash_diverges [of ?t 1]
    by (simp add: lineTo_def distance_def defaultTracer_def)
  ultimately show ?thesis
    by simp
qed

text \<open>
  C7 fails on the code: \<open>circle\<close> applies the matrix to the first sampled point only. With
  the translation by 10 along x, centre \<open>(0, 0)\<close>, radius 1 and two points, the subpath
  starts and ends at the transformed first point \<open>(11, 0)\<close>, but the intermediate target is
  the untransformed \<open>(- 1, 0)\<close> instead of \<open>(9, 0)\<close>, and the pen travels there.
\<close>

theorem circle_intermediate_point_untransformed:
  "circle defaultTracer 0 0 1 2 (Some (\<lambda>p. \<lparr>px = px p + 10, py = py p\<rparr>)) =
     Some (defaultTracer\<lparr> graphics := graphics defaultTracer @
             [MoveTo 11 0, LineTo 1 0, MoveTo (- 1) 0, MoveTo 2 0, LineTo 11 0],
             lineLength := 24, cursor := \<lparr>px = 11, py = 0\<rparr>,
             start := \<lparr>px = 11, py = 0\<rparr> \<rparr>) \<and>
   circleTargets 0 0 1 2 \<lparr>px = 11, py = 0\<rparr> pi 1 pi =
     [\<lparr>px = - 1, py = 0\<rparr>, \<lparr>px = 11, py = 0\<rparr>]"
  by (simp add: circle_def circleTargets.simps moveTo_def defaultTracer_def lineTo_def
      distance_def atan2_def locate_def dashPlace_def js_rem_def js_trunc_def
      dashLineOptionsDefault_def strideLoop.simps Let_def)

text \<open>
  C8, as the code has it. A zero-length segment, and in particular \<open>moveTo\<close> followed at
  once by \<open>closePath\<close>, returns and leaves cursor, accumulated length and start of the
  subpath as they were, in both modes. In vector mode it issues no call on the surface.
  In texture mode it issues a \<open>moveTo\<close> to the cursor, a \<open>stroke\<close> with the recomputed
  pattern matrix and a \<open>lineTo\<close> of length zero, followed by \<open>closePath\<close> when the segment
  closes a subpath and the pattern has an even number of entries.
\<close>

theorem zero_length_segment:
  "lineTo t (px (cursor t)) (py (cursor t)) cp =
     Some (if useTexture t
           then t\<lparr>graphics := graphics t @
                  [MoveTo (px (cursor t)) (py (cursor t)),
                   Stroke (WithMatrix
                     ((if scale t \<noteq> 1 then [Scale (scale t) (scale t)] else []) @
                      [Translate (px (cursor t) - (lineLength t + o_offset (options t)))
                         (py (cursor t))]))] @
                  (if cp \<and> px (cursor t) = px (start t) \<and> py (cursor t) = py (start t)
                        \<and> even (length (dash t))
                   then [LineTo (px (cursor t) - min (last (dash t)) 0) (py (cursor t)),
                         ClosePath]
                   else [LineTo (px (cursor t)) (py (cursor t))])\<rparr>
           else t)
   \<and>
   closePath (moveTo t x y) =
     Some (if useTexture t
           then (moveTo t x y)\<lparr>graphics := graphics t @
                  [MoveTo x y, MoveTo x y,
                   Stroke (WithMatrix
                     ((if scale t \<noteq> 1 then [Scale (scale t) (scale t)] else []) @
                      [Translate (x - o_offset (options t)) y]))] @
                  (if even (length (dash t))
                   then [LineTo (x - min (last (dash t)) 0) y, ClosePath]
                   else [LineTo x y])\<rparr>
           else moveTo t x y)"
proof -
  have "closePath (moveTo t x y) =
     Some (if useTexture t
           then (moveTo t x y)\<lparr>graphics := graphics t @
                  [MoveTo x y, MoveTo x y,
                   Stroke (WithMatrix
                     ((if scale t \<noteq> 1 then [Scale (scale t) (scale t)] else []) @
                      [Translate (x - o_offset (options t)) y]))] @
                  (if even (length (dash t))
                   then [LineTo (x - min (last (dash t)) 0) y, ClosePath]
                   else [LineTo x y])\<rparr>
           else moveTo t x y)"
    using lineTo_zero_length [of "moveTo t x y" True]
    by (simp add: closePath_def moveTo_def)
  with lineTo_zero_length [of t cp] show ?thesis
    by blast
qed

text \<open>
  C8, as stated, fails in texture mode: for the default pattern, \<open>moveTo 3 4\<close> followed by
  \<open>closePath\<close> issues a second \<open>moveTo\<close>, a \<open>stroke\<close>, a \<open>lineTo\<close> to \<open>(3, 4)\<close> and a
  \<open>closePath\<close> on the surface.
\<close>

theorem zero_length_texture_counterexample:
  "constructor [] (dashLineOptionsDefault\<lparr>o_useTexture := True\<rparr>) =
     Inr (defaultTracer\<lparr>graphics := [], useTexture := True,
            options := dashLineOptionsDefault\<lparr>o_useTexture := True\<rparr>\<rparr>) \<and>
   closePath (moveTo (defaultTracer\<lparr>graphics := [], useTexture := True,
            options := dashLineOptionsDefault\<lparr>o_useTexture := True\<rparr>\<rparr>) 3 4) =
     Some ((moveTo (defaultTracer\<lparr>graphics := [], useTexture := True,
            options := dashLineOptionsDefault\<lparr>o_useTexture := True\<rparr>\<rparr>) 3 4)
           \<lparr>graphics := [MoveTo 3 4, MoveTo 3 4, Stroke (WithMatrix [Translate 3 4]),
                         LineTo 3 4, ClosePath]\<rparr>)"
  by (simp add: constructor_def reduce_add_def setStrokeStyle_def closePath_def moveTo_def
      lineTo_def adjustStrokeStyle_def distance_def atan2_def defaultTracer_def
      dashLineOptionsDefault_def Let_def)

text \<open>
  C9, on the flattener modelled from the specification. For every depth cap, control
  points and tolerance, \<open>flattenCubic\<close> and \<open>flattenQuadratic\<close> return a non-empty list of
  points that ends with the endpoint of the curve and has at most \<open>2 ^ cap\<close> points; with
  the cap exhausted they return the endpoint alone, whatever the flatness, as an ordinary
  result.
\<close>

theorem flatten_bounded_by_cap:
  "flattenCubic cap p0 p1 p2 p3 tol \<noteq> [] \<and>
   last (flattenCubic cap p0 p1 p2 p3 tol) = p3 \<and>
   length (flattenCubic cap p0 p1 p2 p3 tol) \<le> 2 ^ cap \<and>
   flattenCubic 0 p0 p1 p2 p3 tol = [p3] \<and>
   flattenQuadratic cap q0 q1 q2 tol \<noteq> [] \<and>
   last (flattenQuadratic cap q0 q1 q2 tol) = q2 \<and>
   length (flattenQuadratic cap q0 q1 q2 tol) \<le> 2 ^ cap \<and>
   flattenQuadratic 0 q0 q1 q2 tol = [q2]"
  using flattenCubic_props [of cap p0 p1 p2 p3 tol] flattenQuadratic_props [of cap q0 q1 q2 tol]
  by simp

text \<open>
  C10. When the target of \<open>lineTo\<close> differs from the start of the subpath in at least one
  coordinate, the \<open>closePath\<close> flag changes neither the calls issued on the surface nor the
  resulting tracer, in vector and in texture mode alike.
\<close>

theorem lineTo_flag_ignored_off_start:
  assumes "x \<noteq> px (start t) \<or> y \<noteq> py (start t)"
  shows "lineTo t x y True = lineTo t x y False"
  using assms by (auto simp add: lineTo_def)

theorem lineTo_flag_ignored_off_start_witness:
  "px (start defaultTracer) \<noteq> 1 \<and>
   lineTo defaultTracer 1 0 True = lineTo defaultTracer 1 0 False"
proof -
  have h: "px (start defaultTracer) \<noteq> 1"
    by (simp add: defaultTracer_def)
  then have "1 \<noteq> px (start defaultTracer) \<or> 0 \<noteq> py (start defaultTracer)"
    by simp
  from lineTo_flag_ignored_off_start [OF this] h show ?thesis
    by simp
qed

end
